theory Spec2Isabelle
  imports Complex_Main "HOL-Library.AList"
begin

section \<open>Python values shared by the modules\<close>

text \<open>
  Python strings are modelled as \<^typ>\<open>string\<close> over the ASCII range: the reply markers,
  the addresses and the dictionary keys of the program are ASCII, and on ASCII text
  \<^verbatim>\<open>str.lower\<close>, \<^verbatim>\<open>str.strip\<close> and the regular expression class \<^verbatim>\<open>\s\<close> behave as
  defined below. Bytes from 128 on are carried through unchanged.
\<close>

datatype py_error =
    KeyError
  | NameError
  | AttributeError
  | IndexError
  | ValueError
  | OverflowError
  | RuntimeError
  | OtherError string

text \<open>\<^verbatim>\<open>str.isspace\<close> on one ASCII character: TAB, LF, VT, FF, CR, FS, GS, RS, US, SPACE.\<close>

definition isspace :: "char \<Rightarrow> bool" where
  "isspace c =
     (let n = (of_char c :: nat) in (9 \<le> n \<and> n \<le> 13) \<or> (28 \<le> n \<and> n \<le> 32))"

text \<open>\<^verbatim>\<open>str.lower\<close> on one ASCII character.\<close>

definition lower_char :: "char \<Rightarrow> char" where
  "lower_char c =
     (let n = (of_char c :: nat) in if 65 \<le> n \<and> n \<le> 90 then char_of (n + 32) else c)"

definition lower :: "string \<Rightarrow> string" where
  "lower s = map lower_char s"

text \<open>\<^verbatim>\<open>str.strip()\<close>: whitespace removed at both ends.\<close>

definition lstrip :: "string \<Rightarrow> string" where
  "lstrip s = dropWhile isspace s"

definition rstrip :: "string \<Rightarrow> string" where
  "rstrip s = rev (dropWhile isspace (rev s))"

definition strip :: "string \<Rightarrow> string" where
  "strip s = rstrip (lstrip s)"

section \<open>Subject normalization (src/imap/handler.py)\<close>

text \<open>
  \<^verbatim>\<open>re.sub(r'^(?:Re|Fwd|Fw|FW|Forward):\s*', '', subject, flags=re.IGNORECASE)\<close>.
  The pattern is anchored at the start of the string, so at most one match is replaced.
  \<open>match_ci p s\<close> matches the literal \<open>p\<close> at the head of \<open>s\<close> ignoring case and
  returns what follows it.
\<close>

fun match_ci :: "string \<Rightarrow> string \<Rightarrow> string option" where
  "match_ci [] s = Some s"
| "match_ci (p # ps) [] = None"
| "match_ci (p # ps) (c # cs) =
     (if lower_char p = lower_char c then match_ci ps cs else None)"

definition markers :: "string list" where
  "markers = [''Re'', ''Fwd'', ''Fw'', ''FW'', ''Forward'']"

text \<open>The alternatives are tried in the order of the pattern, each followed by the colon.\<close>

fun match_marker :: "string list \<Rightarrow> string \<Rightarrow> string option" where
  "match_marker [] s = None"
| "match_marker (m # ms) s =
     (case match_ci (m @ '':'') s of
        Some rest \<Rightarrow> Some rest
      | None \<Rightarrow> match_marker ms s)"

definition re_sub_marker :: "string \<Rightarrow> string" where
  "re_sub_marker subject =
     (case match_marker markers subject of
        Some rest \<Rightarrow> dropWhile isspace rest
      | None \<Rightarrow> subject)"

definition normalize_subject :: "string \<Rightarrow> string" where
  "normalize_subject subject = lower (strip (re_sub_marker subject))"

text \<open>A subject carries a leading marker when the pattern matches at its start.\<close>

definition has_marker :: "string \<Rightarrow> bool" where
  "has_marker s = (match_marker markers s \<noteq> None)"

section \<open>Run statistics (src/utils/stats.py)\<close>

text \<open>
  \<^verbatim>\<open>ProcessingStats\<close>: the integer counters and the \<^verbatim>\<open>errors\<close> dictionary. A Python
  dictionary keeps insertion order, so it is an association list with distinct keys.
\<close>

record stats =
  emails_processed :: int
  replies_found :: int
  emails_matched :: int
  lm_studio_calls :: int
  lm_studio_errors :: int
  excel_updates :: int
  errors :: "(string \<times> int) list"

definition new_stats :: stats where
  "new_stats =
     \<lparr>emails_processed = 0, replies_found = 0, emails_matched = 0,
      lm_studio_calls = 0, lm_studio_errors = 0, excel_updates = 0,
      errors = [(''imap'', 0), (''lm_studio'', 0), (''excel'', 0),
                (''search'', 0), (''processing'', 0)]\<rparr>"

text \<open>
  \<^verbatim>\<open>d[k] += 1\<close> on a plain \<^verbatim>\<open>dict\<close>: the read of a missing key raises \<^verbatim>\<open>KeyError\<close>
  before anything is stored.
\<close>

definition dict_incr :: "(string \<times> int) list \<Rightarrow> string \<Rightarrow> py_error + (string \<times> int) list" where
  "dict_incr d k =
     (case map_of d k of
        None \<Rightarrow> Inl KeyError
      | Some v \<Rightarrow> Inr (AList.update k (v + 1) d))"

text \<open>\<^verbatim>\<open>self.stats.errors[k] += 1\<close> on the statistics object.\<close>

definition count_error :: "stats \<Rightarrow> string \<Rightarrow> py_error + stats" where
  "count_error s k =
     (case dict_incr (errors s) k of
        Inl e \<Rightarrow> Inl e
      | Inr d \<Rightarrow> Inr (s\<lparr>errors := d\<rparr>))"

section \<open>Thread assembly (src/imap/handler.py)\<close>

text \<open>The dictionary built by \<^verbatim>\<open>_fetch_email_data\<close>; \<open>sender\<close> is its key \<^verbatim>\<open>'from'\<close>.\<close>

record email_data =
  message_id :: string
  subject :: string
  sender :: string
  date :: string
  body :: string
  processed :: bool

record thread =
  thread_subject :: string
  messages :: "email_data list"
  thread_context :: "(string \<times> string) list"

definition is_same_thread :: "thread \<Rightarrow> email_data \<Rightarrow> bool" where
  "is_same_thread t e =
     (normalize_subject (thread_subject t) = normalize_subject (subject e))"

definition new_thread :: "email_data \<Rightarrow> thread" where
  "new_thread e = \<lparr>thread_subject = subject e, messages = [], thread_context = []\<rparr>"

text \<open>
  The body of the \<^verbatim>\<open>try\<close> in the loop of \<^verbatim>\<open>get_email_threads\<close>, after the fetch: the state
  is the list \<^verbatim>\<open>threads\<close> and \<^verbatim>\<open>current_thread\<close>.
\<close>

definition thread_step :: "thread list \<times> thread option \<Rightarrow> email_data \<Rightarrow> thread list \<times> thread option" where
  "thread_step st e =
     (case st of (threads, current_thread) \<Rightarrow>
        (case (if current_thread = None \<or> \<not> is_same_thread (the current_thread) e
               then ((case current_thread of None \<Rightarrow> threads | Some t \<Rightarrow> threads @ [t]),
                     new_thread e)
               else (threads, the current_thread))
         of (threads', t') \<Rightarrow> (threads', Some (t'\<lparr>messages := messages t' @ [e]\<rparr>))))"

text \<open>
  The loop over the message ids. Each id comes with the outcome of \<^verbatim>\<open>_fetch_email_data\<close>;
  a failed fetch is counted under \<^verbatim>\<open>'processing'\<close> and the message is skipped.
\<close>

fun threads_loop ::
  "(py_error + email_data) list \<Rightarrow> thread list \<times> thread option \<Rightarrow> stats
     \<Rightarrow> py_error + ((thread list \<times> thread option) \<times> stats)" where
  "threads_loop [] st s = Inr (st, s)"
| "threads_loop (Inr e # rest) st s = threads_loop rest (thread_step st e) s"
| "threads_loop (Inl err # rest) st s =
     (case count_error s ''processing'' of
        Inl k \<Rightarrow> Inl k
      | Inr s' \<Rightarrow> threads_loop rest st s')"

text \<open>
  \<^verbatim>\<open>get_email_threads\<close> from the search on: \<open>found\<close> is the outcome of \<^verbatim>\<open>self.search(query)\<close>
  with, for each message id, the outcome of its fetch. An exception that leaves the loop
  reaches the outer handler, which counts under \<^verbatim>\<open>'imap_threads'\<close> and re-raises.
\<close>

definition get_email_threads ::
  "stats \<Rightarrow> py_error + (py_error + email_data) list \<Rightarrow> py_error + (thread list \<times> stats)" where
  "get_email_threads s found =
     (case (case found of
              Inl e \<Rightarrow> Inl (e, s)
            | Inr outcomes \<Rightarrow>
                (case threads_loop outcomes ([], None) s of
                   Inl e \<Rightarrow> Inl (e, s)
                 | Inr ((threads, current_thread), s') \<Rightarrow>
                     Inr ((case current_thread of
                             None \<Rightarrow> threads
                           | Some t \<Rightarrow> threads @ [t]), s')))
      of Inr r \<Rightarrow> Inr r
       | Inl (e, s') \<Rightarrow>
           (case count_error s' ''imap_threads'' of
              Inl k \<Rightarrow> Inl k
            | Inr _ \<Rightarrow> Inl e))"

text \<open>
  The handlers of the IMAP operations (\<^verbatim>\<open>_connect\<close>, \<^verbatim>\<open>search\<close>, \<^verbatim>\<open>_fetch_email_data\<close>,
  \<^verbatim>\<open>mark_as_read\<close>) all read: log, \<^verbatim>\<open>self.stats.errors[key] += 1\<close>, \<^verbatim>\<open>raise\<close>. The result
  is the exception that leaves the handler and the statistics it leaves behind: the
  caught exception \<open>e\<close> when the count succeeded, the exception of the count otherwise.
\<close>

definition count_and_reraise :: "string \<Rightarrow> stats \<Rightarrow> py_error \<Rightarrow> py_error \<times> stats" where
  "count_and_reraise key s e =
     (case count_error s key of
        Inl k \<Rightarrow> (k, s)
      | Inr s' \<Rightarrow> (e, s'))"

definition connect_except :: "stats \<Rightarrow> py_error \<Rightarrow> py_error \<times> stats" where
  "connect_except = count_and_reraise ''imap_connect''"

definition search_except :: "stats \<Rightarrow> py_error \<Rightarrow> py_error \<times> stats" where
  "search_except = count_and_reraise ''imap_search''"

definition fetch_email_data_except :: "stats \<Rightarrow> py_error \<Rightarrow> py_error \<times> stats" where
  "fetch_email_data_except = count_and_reraise ''imap_fetch''"

definition mark_as_read_except :: "stats \<Rightarrow> py_error \<Rightarrow> py_error \<times> stats" where
  "mark_as_read_except = count_and_reraise ''imap_mark''"

section \<open>Retry with backoff (src/utils/retry.py)\<close>

text \<open>
  \<^verbatim>\<open>time.sleep(secs)\<close>: it refuses a length that does not fit its clock (\<^verbatim>\<open>OverflowError\<close>)
  and, of those that fit, a negative one (\<^verbatim>\<open>ValueError\<close>). \<open>max_sleep\<close> is the longest
  length the platform accepts (in CPython, the lengths that fit a signed 64-bit count of
  nanoseconds). The result is the exception raised, if any.
\<close>

definition sleep :: "real \<Rightarrow> real \<Rightarrow> py_error option" where
  "sleep max_sleep secs =
     (if max_sleep < secs \<or> secs < - max_sleep then Some OverflowError
      else if secs < 0 then Some ValueError
      else None)"

text \<open>
  The wrapped function is given by the outcome of each of its calls, numbered from 0. The
  run records the lengths slept and the number of calls of the function. Delays are real
  numbers: doubling a floating-point number is exact until it overflows to infinity,
  which \<^verbatim>\<open>time.sleep\<close> refuses as it refuses every length beyond \<open>max_sleep\<close>; a delay
  that is not a number is not modelled. An exception of \<^verbatim>\<open>time.sleep\<close> leaves the wrapper,
  since it is raised inside the handler. \<open>outcome\<close> is \<open>Inr None\<close> when the wrapper falls
  off its end.
\<close>

record 'a retry_run =
  outcome :: "py_error + 'a option"
  slept :: "real list"
  calls :: nat

fun wrapper_loop ::
  "real \<Rightarrow> (nat \<Rightarrow> py_error + 'a) \<Rightarrow> int \<Rightarrow> nat list \<Rightarrow> real \<Rightarrow> py_error option
     \<Rightarrow> real list \<Rightarrow> nat \<Rightarrow> 'a retry_run" where
  "wrapper_loop max_sleep func attempts [] retry_delay last_exception sl n =
     \<lparr>outcome = (case last_exception of Some e \<Rightarrow> Inl e | None \<Rightarrow> Inr None),
      slept = sl, calls = n\<rparr>"
| "wrapper_loop max_sleep func attempts (attempt # rest) retry_delay last_exception sl n =
     (case func n of
        Inr v \<Rightarrow> \<lparr>outcome = Inr (Some v), slept = sl, calls = Suc n\<rparr>
      | Inl e \<Rightarrow>
          if int attempt < attempts - 1
          then (case sleep max_sleep retry_delay of
                  Some refused \<Rightarrow> \<lparr>outcome = Inl refused, slept = sl, calls = Suc n\<rparr>
                | None \<Rightarrow>
                    wrapper_loop max_sleep func attempts rest (retry_delay * 2) (Some e)
                      (sl @ [retry_delay]) (Suc n))
          else wrapper_loop max_sleep func attempts rest retry_delay (Some e) sl (Suc n))"

definition retry_with_backoff ::
  "real \<Rightarrow> int \<Rightarrow> real \<Rightarrow> (nat \<Rightarrow> py_error + 'a) \<Rightarrow> 'a retry_run" where
  "retry_with_backoff max_sleep attempts delay func =
     wrapper_loop max_sleep func attempts [0..<nat attempts] delay None [] 0"

section \<open>Reply search (src/imap/search.py)\<close>

text \<open>
  The names bound at module level in \<^verbatim>\<open>search.py\<close>: its four import lines and its class.
  Reading any other global name that is not a builtin raises \<^verbatim>\<open>NameError\<close>. Only the
  names read by the bodies of the methods are modelled; the annotations of the methods
  (one of which names \<^verbatim>\<open>List\<close>, not imported either) are taken as not evaluated.
\<close>

definition search_module_globals :: "string list" where
  "search_module_globals =
     [''Optional'', ''Dict'', ''Callable'', ''logging'', ''datetime'', ''timezone'',
      ''parsedate_to_datetime'', ''EmailSearchStrategy'']"

definition load_global :: "string \<Rightarrow> py_error + unit" where
  "load_global name = (if name \<in> set search_module_globals then Inr () else Inl NameError)"

text \<open>A parsed message is a dictionary of fields; as a condition it holds when non-empty.\<close>

type_synonym message = "(string \<times> string) list"

definition truthy :: "message option \<Rightarrow> bool" where
  "truthy result = (case result of None \<Rightarrow> False | Some m \<Rightarrow> m \<noteq> [])"

text \<open>
  The sent item is a dictionary; a field is \<open>None\<close> when its key is missing. Subscripting
  a missing key raises \<^verbatim>\<open>KeyError\<close>, \<^verbatim>\<open>.get('references_chain', [])\<close> defaults.
\<close>

record sent_item =
  item_message_id :: "string option"
  references_chain :: "string list option"
  item_date :: "string option"
  item_to :: "string option"
  normalized_subject :: "string option"

definition subscript :: "'a option \<Rightarrow> py_error + 'a" where
  "subscript field = (case field of None \<Rightarrow> Inl KeyError | Some v \<Rightarrow> Inr v)"

text \<open>
  The collaborators of the search: the IMAP connection (\<^verbatim>\<open>self.mail.uid\<close>, answering a
  command with a status and a data list whose entries are byte strings or \<^verbatim>\<open>None\<close>),
  the date parser of the standard library with the formatting of the parsed date
  (\<^verbatim>\<open>astimezone(timezone.utc).strftime("%d-%b-%Y")\<close>), and the parsing of a fetched message.
  Dates are seconds since the epoch.
\<close>

datatype uid_command = SEARCH "string list" | FETCH string string

record mail_env =
  uid :: "uid_command \<Rightarrow> py_error + (string \<times> string option list)"
  parsedate_to_datetime :: "string \<Rightarrow> py_error + int"
  format_search_date :: "int \<Rightarrow> string"
  parse_message :: "string option list \<Rightarrow> py_error + message option"

text \<open>\<^verbatim>\<open>bytes.split()[0]\<close>: the first run of non-whitespace bytes.\<close>

definition bytes_isspace :: "char \<Rightarrow> bool" where
  "bytes_isspace c = (let n = (of_char c :: nat) in (9 \<le> n \<and> n \<le> 13) \<or> n = 32)"

definition first_word :: "string \<Rightarrow> py_error + string" where
  "first_word bs =
     (case takeWhile (\<lambda>c. \<not> bytes_isspace c) (dropWhile bytes_isspace bs) of
        [] \<Rightarrow> Inl IndexError
      | w # ws \<Rightarrow> Inr (w # ws))"

text \<open>
  \<^verbatim>\<open>_fetch_and_parse_message\<close>: every exception inside is caught and gives \<^verbatim>\<open>None\<close>. The
  name \<^verbatim>\<open>email\<close> is read before the message is parsed.
\<close>

definition fetch_and_parse_message :: "mail_env \<Rightarrow> string \<Rightarrow> message option" where
  "fetch_and_parse_message env u =
     (case uid env (FETCH u ''(RFC822)'') of
        Inl e \<Rightarrow> None
      | Inr (typ, msg_data) \<Rightarrow>
          if typ \<noteq> ''OK'' then None
          else (case load_global ''email'' of
                  Inl e \<Rightarrow> None
                | Inr _ \<Rightarrow>
                    (case parse_message env msg_data of
                       Inl e \<Rightarrow> None
                     | Inr m \<Rightarrow> m)))"

text \<open>
  The common tail of the three strategies:
  \<^verbatim>\<open>if typ == 'OK' and data[0]: return self._fetch_and_parse_message(data[0].split()[0])\<close>.
  \<open>Inr None\<close> means that the condition failed and the strategy goes on.
\<close>

definition on_hit :: "mail_env \<Rightarrow> string \<times> string option list \<Rightarrow> py_error + message option option" where
  "on_hit env answer =
     (case answer of (typ, data) \<Rightarrow>
        if typ \<noteq> ''OK'' then Inr None
        else (case data of
                [] \<Rightarrow> Inl IndexError
              | d0 # _ \<Rightarrow>
                  (case d0 of
                     None \<Rightarrow> Inr None
                   | Some bs \<Rightarrow>
                       if bs = [] then Inr None
                       else (case first_word bs of
                               Inl e \<Rightarrow> Inl e
                             | Inr u \<Rightarrow> Inr (Some (fetch_and_parse_message env u))))))"

definition search_by_message_id :: "mail_env \<Rightarrow> sent_item \<Rightarrow> py_error + message option" where
  "search_by_message_id env item =
     (case subscript (item_message_id item) of
        Inl e \<Rightarrow> Inl e
      | Inr mid \<Rightarrow>
          if mid = [] then Inr None
          else (case uid env (SEARCH [''HEADER'', ''In-Reply-To'', mid]) of
                  Inl e \<Rightarrow> Inl e
                | Inr answer \<Rightarrow>
                    (case on_hit env answer of
                       Inl e \<Rightarrow> Inl e
                     | Inr (Some r) \<Rightarrow> Inr r
                     | Inr None \<Rightarrow> Inr None)))"

fun references_loop :: "mail_env \<Rightarrow> string list \<Rightarrow> py_error + message option" where
  "references_loop env [] = Inr None"
| "references_loop env (ref # rest) =
     (case uid env (SEARCH [''HEADER'', ''References'', ref]) of
        Inl e \<Rightarrow> Inl e
      | Inr answer \<Rightarrow>
          (case on_hit env answer of
             Inl e \<Rightarrow> Inl e
           | Inr (Some r) \<Rightarrow> Inr r
           | Inr None \<Rightarrow> references_loop env rest))"

definition search_by_references :: "mail_env \<Rightarrow> sent_item \<Rightarrow> py_error + message option" where
  "search_by_references env item =
     references_loop env (case references_chain item of None \<Rightarrow> [] | Some refs \<Rightarrow> refs)"

text \<open>
  The loop of \<^verbatim>\<open>_search_by_subject_and_from\<close> over the prefixes \<^verbatim>\<open>['Re: ', '']\<close>.
\<close>

fun subject_loop :: "mail_env \<Rightarrow> sent_item \<Rightarrow> string \<Rightarrow> string list \<Rightarrow> py_error + message option" where
  "subject_loop env item search_date [] = Inr None"
| "subject_loop env item search_date (subject_prefix # rest) =
     (case subscript (item_to item) of
        Inl e \<Rightarrow> Inl e
      | Inr to \<Rightarrow>
          (case subscript (normalized_subject item) of
             Inl e \<Rightarrow> Inl e
           | Inr subj \<Rightarrow>
               (case uid env (SEARCH [''FROM'', to, ''SINCE'', search_date,
                                      ''SUBJECT'', subject_prefix @ subj]) of
                  Inl e \<Rightarrow> Inl e
                | Inr answer \<Rightarrow>
                    (case on_hit env answer of
                       Inl e \<Rightarrow> Inl e
                     | Inr (Some r) \<Rightarrow> Inr r
                     | Inr None \<Rightarrow> subject_loop env item search_date rest))))"

text \<open>
  The \<^verbatim>\<open>try\<close> parses the date; its handler computes
  \<^verbatim>\<open>datetime.now(timezone.utc) - timedelta(days=14)\<close>, which reads the global name
  \<^verbatim>\<open>timedelta\<close>. \<open>now\<close> is the clock read by the handler.
\<close>

definition search_by_subject_and_from :: "mail_env \<Rightarrow> int \<Rightarrow> sent_item \<Rightarrow> py_error + message option" where
  "search_by_subject_and_from env now item =
     (case (case (case subscript (item_date item) of
                    Inl e \<Rightarrow> Inl e
                  | Inr d \<Rightarrow> parsedate_to_datetime env d) of
              Inr parsed_date \<Rightarrow> Inr parsed_date
            | Inl _ \<Rightarrow>
                (case load_global ''timedelta'' of
                   Inl e \<Rightarrow> Inl e
                 | Inr _ \<Rightarrow> Inr (now - 14 * 86400)))
      of Inl e \<Rightarrow> Inl e
       | Inr parsed_date_utc \<Rightarrow>
           subject_loop env item (format_search_date env parsed_date_utc) [''Re: '', []])"

definition search_strategies ::
  "mail_env \<Rightarrow> int \<Rightarrow> sent_item \<Rightarrow> (string \<times> (unit \<Rightarrow> py_error + message option)) list" where
  "search_strategies env now item =
     [(''message_id'', \<lambda>_. search_by_message_id env item),
      (''references'', \<lambda>_. search_by_references env item),
      (''subject_from'', \<lambda>_. search_by_subject_and_from env now item)]"

text \<open>
  The loop of \<^verbatim>\<open>find_reply_optimized\<close>. \<open>tried\<close> lists the strategies whose
  \<^verbatim>\<open>search_func()\<close> has been called. An exception of the count in the handler leaves the
  function.
\<close>

fun try_strategies ::
  "(string \<times> (unit \<Rightarrow> py_error + message option)) list \<Rightarrow> stats \<Rightarrow> string list
     \<Rightarrow> py_error + (message option \<times> stats \<times> string list)" where
  "try_strategies [] s tried = Inr (None, s, tried)"
| "try_strategies ((strategy_name, search_func) # rest) s tried =
     (case search_func () of
        Inr result \<Rightarrow>
          if truthy result
          then Inr (result, s\<lparr>replies_found := replies_found s + 1\<rparr>, tried @ [strategy_name])
          else try_strategies rest s (tried @ [strategy_name])
      | Inl e \<Rightarrow>
          (case count_error s ''search'' of
             Inl k \<Rightarrow> Inl k
           | Inr s' \<Rightarrow> try_strategies rest s' (tried @ [strategy_name])))"

definition find_reply_optimized ::
  "mail_env \<Rightarrow> int \<Rightarrow> stats \<Rightarrow> sent_item \<Rightarrow> py_error + (message option \<times> stats \<times> string list)" where
  "find_reply_optimized env now s item = try_strategies (search_strategies env now item) s []"

section \<open>The row table (src/excel_manager.py)\<close>

text \<open>
  A cell of the data frame holds text, the missing-value marker \<^verbatim>\<open>NaN\<close>, or some other
  object (a number, \<^verbatim>\<open>None\<close>) that the program only stores and never inspects.
\<close>

datatype pyval = Str string | NaN | Obj nat

text \<open>
  The data frame: its row labels, its column labels and its cells. \<open>cells\<close> is read only
  at labels of the frame.
\<close>

record dataframe =
  index :: "nat list"
  columns :: "string list"
  cells :: "nat \<Rightarrow> string \<Rightarrow> pyval"

text \<open>
  \<^verbatim>\<open>df.at[i, c]\<close> as a read raises \<^verbatim>\<open>KeyError\<close> on a label the frame does not have. As an
  assignment it enlarges the frame by the missing row or column label, whose other cells
  become \<^verbatim>\<open>NaN\<close>.
\<close>

definition at_get :: "dataframe \<Rightarrow> nat \<Rightarrow> string \<Rightarrow> py_error + pyval" where
  "at_get d i c =
     (if i \<in> set (index d) \<and> c \<in> set (columns d) then Inr (cells d i c) else Inl KeyError)"

definition at_set :: "dataframe \<Rightarrow> nat \<Rightarrow> string \<Rightarrow> pyval \<Rightarrow> dataframe" where
  "at_set d i c v =
     \<lparr>index = (if i \<in> set (index d) then index d else index d @ [i]),
      columns = (if c \<in> set (columns d) then columns d else columns d @ [c]),
      cells = (\<lambda>i' c'.
         if i' = i \<and> c' = c then v
         else if (i' = i \<and> i \<notin> set (index d)) \<or> (c' = c \<and> c \<notin> set (columns d)) then NaN
         else cells d i' c')\<rparr>"

text \<open>\<^verbatim>\<open>row[c]\<close> on a row of \<^verbatim>\<open>iterrows()\<close>, and \<^verbatim>\<open>c in row\<close>.\<close>

definition row_get :: "dataframe \<Rightarrow> nat \<Rightarrow> string \<Rightarrow> py_error + pyval" where
  "row_get d idx c = (if c \<in> set (columns d) then Inr (cells d idx c) else Inl KeyError)"

definition in_row :: "dataframe \<Rightarrow> string \<Rightarrow> bool" where
  "in_row d c = (c \<in> set (columns d))"

text \<open>
  Modelled from the spec: the method \<^verbatim>\<open>_normalize_email\<close> is called by
  \<^verbatim>\<open>find_related_rows\<close>, \<^verbatim>\<open>update_row_data\<close> and \<^verbatim>\<open>process_email_thread\<close> and is not defined
  in the class. The spec (4.1): \<^verbatim>\<open>normalize_email(addr)\<close> lowercases and strips
  surrounding whitespace, no other canonicalization.
\<close>

definition normalize_email :: "string \<Rightarrow> string" where
  "normalize_email addr = strip (lower addr)"

text \<open>
  On the content of a cell. The spec describes text only; on a cell that holds no text
  the string methods do not exist, and the call is taken to raise.
\<close>

definition normalize_email_cell :: "pyval \<Rightarrow> py_error + string" where
  "normalize_email_cell v =
     (case v of Str s \<Rightarrow> Inr (normalize_email s) | _ \<Rightarrow> Inl AttributeError)"

text \<open>
  The manager: \<open>column_mapping\<close> is \<^verbatim>\<open>config['columns']\<close> (field name to column), in the
  order of the dictionary. Modelled from the spec: the attribute \<^verbatim>\<open>mail_column\<close> is read
  by the methods and never assigned in the class; it is the name of the column that holds
  the primary contact address of a row (spec 3, Row).
\<close>

record excel_manager =
  column_mapping :: "(string \<times> string) list"
  response_mail_column :: string
  mail_column :: string
  df :: "dataframe option"
  modified :: bool
  manager_stats :: stats

text \<open>The loop of \<^verbatim>\<open>find_related_rows\<close> over \<^verbatim>\<open>self._df.iterrows()\<close>.\<close>

fun rows_loop ::
  "excel_manager \<Rightarrow> dataframe \<Rightarrow> string \<Rightarrow> string set \<Rightarrow> nat list \<Rightarrow> (nat \<times> string) list
     \<Rightarrow> py_error + (nat \<times> string) list" where
  "rows_loop m d original_email normalized_related [] results = Inr results"
| "rows_loop m d original_email normalized_related (idx # rest) results =
     (case row_get d idx (mail_column m) of
        Inl e \<Rightarrow> Inl e
      | Inr v \<Rightarrow>
          (case normalize_email_cell v of
             Inl e \<Rightarrow> Inl e
           | Inr row_email \<Rightarrow>
               if row_email \<noteq> [] \<and>
                  (row_email = original_email \<or> row_email \<in> normalized_related)
               then rows_loop m d original_email normalized_related rest
                      (results @ [(idx, row_email)])
               else if in_row d (response_mail_column m)
               then (case normalize_email_cell (cells d idx (response_mail_column m)) of
                       Inl e \<Rightarrow> Inl e
                     | Inr response_email \<Rightarrow>
                         if response_email \<noteq> [] \<and>
                            (response_email = original_email \<or>
                             response_email \<in> normalized_related)
                         then rows_loop m d original_email normalized_related rest
                                (results @ [(idx, response_email)])
                         else rows_loop m d original_email normalized_related rest results)
               else rows_loop m d original_email normalized_related rest results))"

definition find_related_rows ::
  "excel_manager \<Rightarrow> string \<Rightarrow> string set \<Rightarrow> py_error + (nat \<times> string) list" where
  "find_related_rows m original_email related_emails =
     (case df m of
        None \<Rightarrow> Inl RuntimeError
      | Some d \<Rightarrow>
          rows_loop m d (normalize_email original_email)
            (normalize_email ` related_emails) (index d) [])"

text \<open>\<^verbatim>\<open>if isinstance(value, str): value = value.strip()\<close>.\<close>

definition strip_value :: "pyval \<Rightarrow> pyval" where
  "strip_value v = (case v of Str s \<Rightarrow> Str (strip s) | _ \<Rightarrow> v)"

text \<open>
  The loop of \<^verbatim>\<open>update_row_data\<close> over \<^verbatim>\<open>data.items()\<close>. The column written is the one
  that \<^verbatim>\<open>config['columns']\<close> gives for the key; when the frame has no column of that name
  (\<^verbatim>\<open>load_excel\<close> renames the loaded columns to the keys of the mapping), the assignment
  adds the column.
\<close>

fun write_fields ::
  "(string \<times> string) list \<Rightarrow> nat \<Rightarrow> (string \<times> pyval) list \<Rightarrow> dataframe \<Rightarrow> dataframe" where
  "write_fields cm row_idx [] d = d"
| "write_fields cm row_idx ((key, v) # rest) d =
     (case map_of cm key of
        None \<Rightarrow> write_fields cm row_idx rest d
      | Some col \<Rightarrow> write_fields cm row_idx rest (at_set d row_idx col (strip_value v)))"

text \<open>
  The second part of the \<^verbatim>\<open>try\<close>: \<^verbatim>\<open>if response_email:\<close> holds for a non-empty string.
  An exception comes with the frame as the writes made so far have left it.
\<close>

definition write_response ::
  "excel_manager \<Rightarrow> nat \<Rightarrow> string option \<Rightarrow> dataframe \<Rightarrow> (py_error \<times> dataframe) + dataframe" where
  "write_response m row_idx response_email d =
     (case response_email of
        None \<Rightarrow> Inr d
      | Some r \<Rightarrow>
          if r = [] then Inr d
          else (case at_get d row_idx (mail_column m) of
                  Inl e \<Rightarrow> Inl (e, d)
                | Inr original_email \<Rightarrow>
                    (case normalize_email_cell original_email of
                       Inl e \<Rightarrow> Inl (e, d)
                     | Inr original \<Rightarrow>
                         if normalize_email r \<noteq> original
                         then Inr (at_set d row_idx (response_mail_column m) (Str r))
                         else Inr d)))"

text \<open>
  \<^verbatim>\<open>update_row_data\<close>: the handler of the \<^verbatim>\<open>try\<close> logs and counts under \<^verbatim>\<open>'excel'\<close>; the
  writes made before the exception stay in the frame.
\<close>

definition update_row_data ::
  "excel_manager \<Rightarrow> nat \<Rightarrow> (string \<times> pyval) list \<Rightarrow> string option \<Rightarrow> py_error + excel_manager" where
  "update_row_data m row_idx data response_email =
     (case df m of
        None \<Rightarrow> Inl RuntimeError
      | Some d \<Rightarrow>
          (case write_response m row_idx response_email
                  (write_fields (column_mapping m) row_idx data d) of
             Inr d' \<Rightarrow>
               Inr (m\<lparr>df := Some d', modified := True,
                       manager_stats := (manager_stats m)
                         \<lparr>excel_updates := excel_updates (manager_stats m) + 1\<rparr>\<rparr>)
           | Inl (e, d') \<Rightarrow>
               (case count_error (manager_stats m) ''excel'' of
                  Inl k \<Rightarrow> Inl k
                | Inr s' \<Rightarrow> Inr (m\<lparr>df := Some d', manager_stats := s'\<rparr>))))"

text \<open>
  The thread as \<^verbatim>\<open>process_email_thread\<close> reads it: \<^verbatim>\<open>thread_data.get('participants', [])\<close>
  and \<^verbatim>\<open>thread_data.get('messages', [])\<close>; a field is \<open>None\<close> when the key is missing.
\<close>

record thread_data =
  participants :: "string list option"
  data_messages :: "email_data list option"

text \<open>The thread dictionaries built by \<^verbatim>\<open>get_email_threads\<close> have no key \<^verbatim>\<open>'participants'\<close>.\<close>

definition thread_data_of :: "thread \<Rightarrow> thread_data" where
  "thread_data_of t = \<lparr>participants = None, data_messages = Some (messages t)\<rparr>"

definition get_or_empty :: "'a list option \<Rightarrow> 'a list" where
  "get_or_empty field = (case field of None \<Rightarrow> [] | Some xs \<Rightarrow> xs)"

text \<open>The inner loop with its \<^verbatim>\<open>break\<close>: the response address for one found row.\<close>

fun response_email_for :: "string \<Rightarrow> email_data list \<Rightarrow> string option" where
  "response_email_for found_email [] = None"
| "response_email_for found_email (msg # rest) =
     (if normalize_email (sender msg) \<noteq> normalize_email found_email
      then Some (sender msg)
      else response_email_for found_email rest)"

text \<open>The loop over the related rows.\<close>

fun update_related_rows ::
  "excel_manager \<Rightarrow> (nat \<times> string) list \<Rightarrow> email_data list \<Rightarrow> (string \<times> pyval) list
     \<Rightarrow> py_error + excel_manager" where
  "update_related_rows m [] msgs analysis_results = Inr m"
| "update_related_rows m ((row_idx, found_email) # rest) msgs analysis_results =
     (case update_row_data m row_idx analysis_results (response_email_for found_email msgs) of
        Inl e \<Rightarrow> Inl e
      | Inr m' \<Rightarrow> update_related_rows m' rest msgs analysis_results)"

definition process_email_thread ::
  "excel_manager \<Rightarrow> string \<Rightarrow> thread_data \<Rightarrow> (string \<times> pyval) list \<Rightarrow> py_error + excel_manager" where
  "process_email_thread m original_email td analysis_results =
     (case find_related_rows m original_email (set (get_or_empty (participants td))) of
        Inl e \<Rightarrow> Inl e
      | Inr related_rows \<Rightarrow>
          if related_rows = [] then Inr m
          else update_related_rows m related_rows (get_or_empty (data_messages td))
                 analysis_results)"

section \<open>Notions used in the statements and proofs\<close>

text \<open>The threads of a loop state in the order of emission, the open one last.\<close>

definition emitted :: "thread list \<times> thread option \<Rightarrow> thread list" where
  "emitted st = (case st of (threads, None) \<Rightarrow> threads | (threads, Some t) \<Rightarrow> threads @ [t])"

text \<open>
  A thread is a run: it is not empty, carries the subject of its first message, and all
  its messages have the normalized subject of the thread.
\<close>

definition run_ok :: "thread \<Rightarrow> bool" where
  "run_ok t \<longleftrightarrow>
     messages t \<noteq> [] \<and> thread_subject t = subject (hd (messages t)) \<and>
     (\<forall>m \<in> set (messages t). normalize_subject (subject m) = normalize_subject (thread_subject t))"

text \<open>The invariant of the assembly loop after the messages \<open>seen\<close>.\<close>

definition assembled :: "thread list \<times> thread option \<Rightarrow> email_data list \<Rightarrow> bool" where
  "assembled st seen \<longleftrightarrow>
     (snd st = None \<longrightarrow> fst st = []) \<and>
     concat (map messages (emitted st)) = seen \<and>
     (\<forall>t \<in> set (emitted st). run_ok t) \<and>
     distinct_adj (map (\<lambda>t. normalize_subject (thread_subject t)) (emitted st))"

text \<open>A fetched message with a given subject, for the examples.\<close>

definition example_message :: "string \<Rightarrow> string \<Rightarrow> email_data" where
  "example_message subj addr =
     \<lparr>message_id = ''1'', subject = subj, sender = addr, date = [], body = [],
      processed = False\<rparr>"

definition offer_messages :: "email_data list" where
  "offer_messages =
     map (\<lambda>subj. example_message subj ''a@x.com'') [''Offer'', ''Offer'', ''Other'', ''Offer'']"

text \<open>The keys with which \<^verbatim>\<open>ProcessingStats.errors\<close> is initialized.\<close>

definition error_categories :: "string list" where
  "error_categories = [''imap'', ''lm_studio'', ''excel'', ''search'', ''processing'']"



text \<open>A reply, a mailbox and sent items for the examples.\<close>

definition example_reply :: message where
  "example_reply = [(''subject'', ''Re: Offer''), (''from'', ''b@x.com'')]"

definition example_env :: mail_env where
  "example_env =
     \<lparr>uid = (\<lambda>c. Inr (''OK'', [Some ''7''])),
      parsedate_to_datetime =
        (\<lambda>d. if d = ''Mon, 01 Jan 2024 10:00:00 +0000'' then Inr 1704103200 else Inl ValueError),
      format_search_date = (\<lambda>t. ''01-Jan-2024''),
      parse_message = (\<lambda>data. Inr (Some example_reply))\<rparr>"

definition example_item :: sent_item where
  "example_item =
     \<lparr>item_message_id = Some ''<m1@x.com>'', references_chain = Some [],
      item_date = Some ''yesterday'', item_to = Some ''b@x.com'',
      normalized_subject = Some ''offer''\<rparr>"

text \<open>A sleep limit for the examples: 2^63 nanoseconds, in whole seconds.\<close>

definition example_max_sleep :: real where
  "example_max_sleep = 9223372036"



text \<open>A cell holds text.\<close>

definition is_text :: "pyval \<Rightarrow> bool" where
  "is_text v = (case v of Str s \<Rightarrow> True | _ \<Rightarrow> False)"

text \<open>
  The row matcher in the words of the spec: a normalized row address matches when it
  equals the normalized query address or is a member of the normalized related set; the
  row is a candidate when its primary address or, if the column is present, its response
  address matches.
\<close>

definition address_hit :: "string \<Rightarrow> string set \<Rightarrow> string \<Rightarrow> bool" where
  "address_hit original related a \<longleftrightarrow>
     a = normalize_email original \<or> a \<in> normalize_email ` related"

definition claimed_cell_hit :: "dataframe \<Rightarrow> string \<Rightarrow> string set \<Rightarrow> nat \<Rightarrow> string \<Rightarrow> bool" where
  "claimed_cell_hit d original related idx c =
     (case cells d idx c of
        Str a \<Rightarrow> address_hit original related (normalize_email a)
      | _ \<Rightarrow> False)"

definition claimed_candidate ::
  "excel_manager \<Rightarrow> dataframe \<Rightarrow> string \<Rightarrow> string set \<Rightarrow> nat \<Rightarrow> bool" where
  "claimed_candidate m d original related idx \<longleftrightarrow>
     claimed_cell_hit d original related idx (mail_column m) \<or>
     (response_mail_column m \<in> set (columns d) \<and>
      claimed_cell_hit d original related idx (response_mail_column m))"

text \<open>The same with the guard of the code: an empty normalized address never matches.\<close>

definition cell_hit :: "dataframe \<Rightarrow> string \<Rightarrow> string set \<Rightarrow> nat \<Rightarrow> string \<Rightarrow> bool" where
  "cell_hit d original related idx c =
     (case cells d idx c of
        Str a \<Rightarrow> normalize_email a \<noteq> [] \<and> address_hit original related (normalize_email a)
      | _ \<Rightarrow> False)"

definition candidate ::
  "excel_manager \<Rightarrow> dataframe \<Rightarrow> string \<Rightarrow> string set \<Rightarrow> nat \<Rightarrow> bool" where
  "candidate m d original related idx \<longleftrightarrow>
     cell_hit d original related idx (mail_column m) \<or>
     (response_mail_column m \<in> set (columns d) \<and>
      cell_hit d original related idx (response_mail_column m))"

text \<open>The normalized address of a text cell.\<close>

definition cell_address :: "dataframe \<Rightarrow> nat \<Rightarrow> string \<Rightarrow> string" where
  "cell_address d idx c = (case cells d idx c of Str a \<Rightarrow> normalize_email a | _ \<Rightarrow> [])"

text \<open>The address reported for a candidate row: the primary one if it matches.\<close>

definition matched_address ::
  "excel_manager \<Rightarrow> dataframe \<Rightarrow> string \<Rightarrow> string set \<Rightarrow> nat \<Rightarrow> string" where
  "matched_address m d original related idx =
     (if cell_hit d original related idx (mail_column m)
      then cell_address d idx (mail_column m)
      else cell_address d idx (response_mail_column m))"

text \<open>
  The first-divergent-sender policy in the words of the spec: the sender of the first
  message whose normalized sender address differs from the matched address.
\<close>

definition first_divergent_sender :: "string \<Rightarrow> email_data list \<Rightarrow> string option" where
  "first_divergent_sender matched msgs =
     map_option sender (find (\<lambda>msg. normalize_email (sender msg) \<noteq> matched) msgs)"

text \<open>A sequence of calls of the update applier, each on the table the previous one left.\<close>

fun apply_updates ::
  "excel_manager \<Rightarrow> (nat \<times> (string \<times> pyval) list \<times> string option) list
     \<Rightarrow> py_error + excel_manager" where
  "apply_updates m [] = Inr m"
| "apply_updates m ((row_idx, data, response_email) # rest) =
     (case update_row_data m row_idx data response_email of
        Inl e \<Rightarrow> Inl e
      | Inr m' \<Rightarrow> apply_updates m' rest)"

text \<open>Tables for the examples: two rows with a primary address and a price.\<close>

definition example_frame :: dataframe where
  "example_frame =
     \<lparr>index = [0, 1], columns = [''mail'', ''price''],
      cells = (\<lambda>i c. if c = ''mail'' then (if i = 0 then Str ''a@x.com'' else Str ''B@X.com'')
                      else Str [])\<rparr>"

definition example_manager :: excel_manager where
  "example_manager =
     \<lparr>column_mapping = [(''price_usd'', ''price'')], response_mail_column = ''response'',
      mail_column = ''mail'', df = Some example_frame, modified = False,
      manager_stats = new_stats\<rparr>"

definition blank_frame :: dataframe where
  "blank_frame =
     \<lparr>index = [0], columns = [''mail'', ''price''], cells = (\<lambda>i c. Str [])\<rparr>"

definition blank_manager :: excel_manager where
  "blank_manager = example_manager\<lparr>df := Some blank_frame\<rparr>"

text \<open>A thread of three messages from three senders, for the examples.\<close>

definition example_thread :: thread_data where
  "example_thread =
     \<lparr>participants = Some [''A@x.com'', ''B@X.com'', ''c@y.com''],
      data_messages = Some [example_message ''Offer'' ''a@x.com'',
                            example_message ''Re: Offer'' ''B@X.com'',
                            example_message ''Re: Offer'' ''c@y.com'']\<rparr>"

section \<open>Properties of the string operations\<close>

lemma lower_char_idem: "lower_char (lower_char c) = lower_char c"
  by (auto simp: lower_char_def Let_def)

lemma isspace_lower_char: "isspace (lower_char c) = isspace c"
  by (auto simp: lower_char_def isspace_def Let_def)

lemma lower_idem: "lower (lower s) = lower s"
  by (simp add: lower_def lower_char_idem)

lemma dropWhile_isspace_lower: "dropWhile isspace (lower s) = lower (dropWhile isspace s)"
  by (induction s) (simp_all add: lower_def isspace_lower_char)

lemma lstrip_lower: "lstrip (lower s) = lower (lstrip s)"
  by (simp add: lstrip_def dropWhile_isspace_lower)

lemma rstrip_lower: "rstrip (lower s) = lower (rstrip s)"
proof -
  have "rev (lower s) = lower (rev s)" by (simp add: lower_def rev_map)
  then show ?thesis
    by (simp add: rstrip_def dropWhile_isspace_lower) (simp add: lower_def rev_map)
qed

lemma strip_lower: "strip (lower s) = lower (strip s)"
  by (simp add: strip_def lstrip_lower rstrip_lower)

lemma lstrip_idem: "lstrip (lstrip s) = lstrip s"
  by (simp add: lstrip_def)

lemma rstrip_idem: "rstrip (rstrip s) = rstrip s"
  by (simp add: rstrip_def)

lemma rstrip_prefix: "rstrip s @ rev (takeWhile isspace (rev s)) = s"
proof -
  have "rev (takeWhile isspace (rev s) @ dropWhile isspace (rev s)) = s"
    by simp
  then show ?thesis
    unfolding rstrip_def rev_append .
qed

lemma lstrip_rstrip_fixed:
  assumes "lstrip s = s"
  shows "lstrip (rstrip s) = rstrip s"
proof (cases "rstrip s = []")
  case True
  then show ?thesis by (simp add: lstrip_def)
next
  case False
  then have "hd (rstrip s) = hd s"
    by (metis hd_append2 rstrip_prefix)
  moreover from False have "s \<noteq> []"
    by (auto simp: rstrip_def)
  moreover from assms have "s = [] \<or> \<not> isspace (hd s)"
    by (simp add: lstrip_def dropWhile_eq_self_iff)
  ultimately show ?thesis
    by (simp add: lstrip_def dropWhile_eq_self_iff)
qed

lemma strip_idem: "strip (strip s) = strip s"
proof -
  have "lstrip (rstrip (lstrip s)) = rstrip (lstrip s)"
    by (rule lstrip_rstrip_fixed) (rule lstrip_idem)
  then show ?thesis by (simp add: strip_def rstrip_idem)
qed

lemma length_strip_le: "length (strip s) \<le> length s"
proof -
  have "length (rstrip (lstrip s)) \<le> length (lstrip s)"
    unfolding rstrip_def by (metis length_rev length_dropWhile_le)
  also have "\<dots> \<le> length s" by (simp add: lstrip_def length_dropWhile_le)
  finally show ?thesis by (simp add: strip_def)
qed

section \<open>Subject normalization\<close>

lemma match_ci_length: "match_ci p s = Some r \<Longrightarrow> length s = length p + length r"
  by (induction p s rule: match_ci.induct) (auto split: if_splits)

lemma match_marker_length:
  "match_marker ms s = Some r \<Longrightarrow> length r < length s"
  by (induction ms) (auto split: option.splits dest: match_ci_length)

lemma length_normalize_subject_le: "length (normalize_subject s) \<le> length (re_sub_marker s)"
  by (simp add: normalize_subject_def lower_def length_strip_le)

lemma re_sub_marker_shorter: "has_marker s \<Longrightarrow> length (re_sub_marker s) < length s"
  unfolding has_marker_def re_sub_marker_def
  by (auto split: option.splits dest!: match_marker_length
      intro: le_less_trans[OF length_dropWhile_le])

lemma re_sub_marker_same: "\<not> has_marker s \<Longrightarrow> re_sub_marker s = s"
  by (simp add: has_marker_def re_sub_marker_def)

lemma normalize_subject_fixed:
  assumes "\<not> has_marker (lower (strip x))"
  shows "normalize_subject (lower (strip x)) = lower (strip x)"
  using assms
  by (simp add: normalize_subject_def re_sub_marker_same strip_lower strip_idem lower_idem)

text \<open>
  C4, as stated, fails: the pattern removes one marker and is case-insensitive, so the
  lowercased result of a subject with two markers still starts with a marker, which a
  second normalization removes.
\<close>

theorem normalize_subject_not_idempotent:
  "normalize_subject (normalize_subject ''Re: Re: hello'') \<noteq> normalize_subject ''Re: Re: hello''"
  by code_simp

lemma match_ci_split:
  "match_ci p s = Some r \<longleftrightarrow> (\<exists>pre. s = pre @ r \<and> lower pre = lower p)"
proof (induction p s rule: match_ci.induct)
  case (1 s)
  show ?case by (simp add: lower_def)
next
  case (2 p ps)
  show ?case by (simp add: lower_def)
next
  case (3 p ps c cs)
  show ?case
  proof (cases "lower_char p = lower_char c")
    case True
    have "(\<exists>pre. c # cs = pre @ r \<and> lower pre = lower (p # ps)) \<longleftrightarrow>
          (\<exists>pre'. cs = pre' @ r \<and> lower pre' = lower ps)"
    proof
      assume "\<exists>pre. c # cs = pre @ r \<and> lower pre = lower (p # ps)"
      then obtain pre where pre: "c # cs = pre @ r" "lower pre = lower (p # ps)" by blast
      from pre(2) obtain x pre' where x: "pre = x # pre'"
        by (cases pre) (simp_all add: lower_def)
      with pre show "\<exists>pre'. cs = pre' @ r \<and> lower pre' = lower ps"
        by (simp add: lower_def)
    next
      assume "\<exists>pre'. cs = pre' @ r \<and> lower pre' = lower ps"
      then obtain pre' where "cs = pre' @ r" "lower pre' = lower ps" by blast
      with True have "c # cs = (c # pre') @ r \<and> lower (c # pre') = lower (p # ps)"
        by (simp add: lower_def)
      then show "\<exists>pre. c # cs = pre @ r \<and> lower pre = lower (p # ps)" by blast
    qed
    with True 3 show ?thesis by simp
  next
    case False
    have "\<not> (\<exists>pre. c # cs = pre @ r \<and> lower pre = lower (p # ps))"
    proof
      assume "\<exists>pre. c # cs = pre @ r \<and> lower pre = lower (p # ps)"
      then obtain pre where pre: "c # cs = pre @ r" "lower pre = lower (p # ps)" by blast
      from pre(2) obtain x pre' where x: "pre = x # pre'"
        by (cases pre) (simp_all add: lower_def)
      with pre False show False by (simp add: lower_def)
    qed
    with False show ?thesis by simp
  qed
qed

lemma match_marker_Some:
  "match_marker ms s = Some r \<Longrightarrow> \<exists>m \<in> set ms. match_ci (m @ '':'') s = Some r"
  by (induction ms) (auto split: option.splits)

lemma match_marker_None:
  "match_marker ms s = None \<longleftrightarrow> (\<forall>m \<in> set ms. match_ci (m @ '':'') s = None)"
  by (induction ms) (auto split: option.splits)

lemma has_marker_split:
  "has_marker s \<longleftrightarrow>
     (\<exists>m \<in> set markers. \<exists>pre rest. s = pre @ rest \<and> lower pre = lower (m @ '':''))"
proof
  assume "has_marker s"
  then obtain r where "match_marker markers s = Some r"
    by (auto simp: has_marker_def)
  from match_marker_Some[OF this] show
    "\<exists>m \<in> set markers. \<exists>pre rest. s = pre @ rest \<and> lower pre = lower (m @ '':'')"
    by (auto simp: match_ci_split)
next
  assume "\<exists>m \<in> set markers. \<exists>pre rest. s = pre @ rest \<and> lower pre = lower (m @ '':'')"
  then obtain m pre rest where m: "m \<in> set markers"
    and "s = pre @ rest" "lower pre = lower (m @ '':'')" by blast
  then have "match_ci (m @ '':'') s = Some rest"
    by (auto simp: match_ci_split)
  with m have "match_marker markers s \<noteq> None"
    by (auto simp: match_marker_None)
  then show "has_marker s" by (simp add: has_marker_def)
qed

lemma strip_lstrip: "strip (dropWhile isspace s) = strip s"
  by (simp add: strip_def lstrip_def)

lemma normalize_subject_marker:
  assumes "has_marker s"
  shows "\<exists>m \<in> set markers. \<exists>pre rest.
           s = pre @ rest \<and> lower pre = lower (m @ '':'') \<and>
           normalize_subject s = lower (strip rest)"
proof -
  from assms obtain r where r: "match_marker markers s = Some r"
    by (auto simp: has_marker_def)
  from match_marker_Some[OF r] obtain m pre where "m \<in> set markers"
    "s = pre @ r" "lower pre = lower (m @ '':'')"
    by (auto simp: match_ci_split)
  moreover from r have "normalize_subject s = lower (strip r)"
    by (simp add: normalize_subject_def re_sub_marker_def strip_lstrip)
  ultimately show ?thesis by blast
qed

text \<open>
  C4, amended: \<^verbatim>\<open>normalize_subject\<close> is not idempotent in general; normalizing twice yields
  the same as normalizing once exactly when the once-normalized subject does not itself
  start with a reply/forward marker. A subject starts with a marker when a prefix of it
  is, ignoring case, one of Re:, Fwd:, Fw:, FW:, Forward:. Normalization removes that one
  prefix, when there is one, and strips outer whitespace and lowercases what follows
  it; a subject that does not start with a marker is only stripped and lowercased.
\<close>

theorem normalize_subject_idempotent_iff:
  "(normalize_subject (normalize_subject s) = normalize_subject s
      \<longleftrightarrow> \<not> has_marker (normalize_subject s)) \<and>
   (has_marker s \<longleftrightarrow>
      (\<exists>m \<in> set markers. \<exists>pre rest. s = pre @ rest \<and> lower pre = lower (m @ '':''))) \<and>
   (\<not> has_marker s \<longrightarrow> normalize_subject s = lower (strip s)) \<and>
   (has_marker s \<longrightarrow>
      (\<exists>m \<in> set markers. \<exists>pre rest.
         s = pre @ rest \<and> lower pre = lower (m @ '':'') \<and>
         normalize_subject s = lower (strip rest)))"
proof (intro conjI)
  show "normalize_subject (normalize_subject s) = normalize_subject s
          \<longleftrightarrow> \<not> has_marker (normalize_subject s)"
  proof
    assume eq: "normalize_subject (normalize_subject s) = normalize_subject s"
    show "\<not> has_marker (normalize_subject s)"
    proof
      assume "has_marker (normalize_subject s)"
      then have "length (re_sub_marker (normalize_subject s)) < length (normalize_subject s)"
        by (rule re_sub_marker_shorter)
      with length_normalize_subject_le[of "normalize_subject s"] eq show False by simp
    qed
  next
    assume "\<not> has_marker (normalize_subject s)"
    then show "normalize_subject (normalize_subject s) = normalize_subject s"
      using normalize_subject_fixed[of "re_sub_marker s"] by (simp add: normalize_subject_def)
  qed
next
  show "has_marker s \<longleftrightarrow>
      (\<exists>m \<in> set markers. \<exists>pre rest. s = pre @ rest \<and> lower pre = lower (m @ '':''))"
    by (rule has_marker_split)
next
  show "\<not> has_marker s \<longrightarrow> normalize_subject s = lower (strip s)"
    by (simp add: normalize_subject_def re_sub_marker_same)
next
  show "has_marker s \<longrightarrow>
      (\<exists>m \<in> set markers. \<exists>pre rest.
         s = pre @ rest \<and> lower pre = lower (m @ '':'') \<and>
         normalize_subject s = lower (strip rest))"
    using normalize_subject_marker by blast
qed

theorem normalize_subject_idempotent_iff_witness:
  "normalize_subject (normalize_subject ''Fwd: Offer 7 '') = normalize_subject ''Fwd: Offer 7 '' \<and>
   normalize_subject '' Re: hello'' = lower (strip '' Re: hello'') \<and>
   normalize_subject (normalize_subject '' Re: hello'') \<noteq> normalize_subject '' Re: hello''"
proof -
  have 1: "\<not> has_marker (normalize_subject ''Fwd: Offer 7 '')"
    by code_simp
  have 2: "\<not> has_marker '' Re: hello''"
    by code_simp
  have 3: "has_marker (normalize_subject '' Re: hello'')"
    by code_simp
  have a: "normalize_subject (normalize_subject ''Fwd: Offer 7 '') = normalize_subject ''Fwd: Offer 7 ''"
    using normalize_subject_idempotent_iff[of "''Fwd: Offer 7 ''", THEN conjunct1] 1
    by (rule iffD2)
  have b: "normalize_subject '' Re: hello'' = lower (strip '' Re: hello'')"
    using normalize_subject_idempotent_iff[of "'' Re: hello''",
            THEN conjunct2, THEN conjunct2, THEN conjunct1] 2
    by (rule mp)
  have c: "normalize_subject (normalize_subject '' Re: hello'') \<noteq> normalize_subject '' Re: hello''"
  proof
    assume "normalize_subject (normalize_subject '' Re: hello'') = normalize_subject '' Re: hello''"
    with normalize_subject_idempotent_iff[of "'' Re: hello''", THEN conjunct1]
    have "\<not> has_marker (normalize_subject '' Re: hello'')"
      by (rule iffD1)
    with 3 show False by (rule notE[rotated])
  qed
  from a b c show ?thesis
    by (intro conjI)
qed

section \<open>Thread assembly\<close>

lemma thread_step_None:
  "thread_step (threads, None) e =
     (threads, Some \<lparr>thread_subject = subject e, messages = [e], thread_context = []\<rparr>)"
  by (simp add: thread_step_def new_thread_def)

lemma thread_step_Some:
  "thread_step (threads, Some t) e =
     (if normalize_subject (subject e) = normalize_subject (thread_subject t)
      then (threads, Some (t\<lparr>messages := messages t @ [e]\<rparr>))
      else (threads @ [t],
            Some \<lparr>thread_subject = subject e, messages = [e], thread_context = []\<rparr>))"
  by (auto simp: thread_step_def new_thread_def is_same_thread_def)
lemma emitted_simps:
  "emitted (threads, None) = threads"
  "emitted (threads, Some t) = threads @ [t]"
  by (simp_all add: emitted_def)

lemma run_ok_new: "run_ok \<lparr>thread_subject = subject e, messages = [e], thread_context = []\<rparr>"
  by (simp add: run_ok_def)

lemma run_ok_append:
  assumes "run_ok t" "normalize_subject (subject e) = normalize_subject (thread_subject t)"
  shows "run_ok (t\<lparr>messages := messages t @ [e]\<rparr>)"
proof -
  from assms(1) have ne: "messages t \<noteq> []"
    and hd: "thread_subject t = subject (hd (messages t))"
    and all: "\<And>m. m \<in> set (messages t) \<Longrightarrow>
                normalize_subject (subject m) = normalize_subject (thread_subject t)"
    unfolding run_ok_def by blast+
  from ne have h: "hd (messages t @ [e]) = hd (messages t)"
    by (rule hd_append2)
  have 1: "messages (t\<lparr>messages := messages t @ [e]\<rparr>) = messages t @ [e]"
    and 2: "thread_subject (t\<lparr>messages := messages t @ [e]\<rparr>) = thread_subject t"
    by simp_all
  have 3: "normalize_subject (subject m) = normalize_subject (thread_subject t)"
    if "m \<in> set (messages t @ [e])" for m
  proof (cases "m = e")
    case True
    with assms(2) show ?thesis by simp
  next
    case False
    with that have "m \<in> set (messages t)" by simp
    then show ?thesis by (rule all)
  qed
  show ?thesis
    unfolding run_ok_def 1 2 h
    using hd 3 by blast
qed

lemma assembled_None:
  assumes "assembled (threads, None) seen"
  shows "assembled (thread_step (threads, None) e) (seen @ [e])"
proof -
  from assms have "threads = []" "seen = []"
    by (auto simp: assembled_def emitted_simps)
  then show ?thesis
    by (simp add: assembled_def emitted_simps thread_step_None run_ok_new)
qed

lemma assembled_Some_same:
  assumes "assembled (threads, Some t) seen"
    and "normalize_subject (subject e) = normalize_subject (thread_subject t)"
  shows "assembled (thread_step (threads, Some t) e) (seen @ [e])"
proof -
  from assms(1) have t: "run_ok t" and ts: "\<forall>u \<in> set threads. run_ok u"
    and cc: "concat (map messages threads) @ messages t = seen"
    and adj: "distinct_adj (map (\<lambda>t. normalize_subject (thread_subject t)) (threads @ [t]))"
    by (simp_all add: assembled_def emitted_simps)
  have "run_ok (t\<lparr>messages := messages t @ [e]\<rparr>)"
    using t assms(2) by (rule run_ok_append)
  with ts cc adj show ?thesis
    by (simp add: assembled_def emitted_simps thread_step_Some assms(2))
qed

lemma assembled_Some_other:
  assumes "assembled (threads, Some t) seen"
    and "normalize_subject (subject e) \<noteq> normalize_subject (thread_subject t)"
  shows "assembled (thread_step (threads, Some t) e) (seen @ [e])"
proof -
  from assms(1) have t: "run_ok t" and ts: "\<forall>u \<in> set threads. run_ok u"
    and cc: "concat (map messages threads) @ messages t = seen"
    and adj: "distinct_adj (map (\<lambda>t. normalize_subject (thread_subject t)) (threads @ [t]))"
    by (simp_all add: assembled_def emitted_simps)
  have "distinct_adj (map (\<lambda>t. normalize_subject (thread_subject t)) (threads @ [t])
          @ [normalize_subject (subject e)])"
    using adj assms(2) by (simp add: distinct_adj_append_iff)
  with ts t cc show ?thesis
    by (simp add: assembled_def emitted_simps thread_step_Some assms(2) run_ok_new)
qed

lemma assembled_step:
  assumes "assembled st seen"
  shows "assembled (thread_step st e) (seen @ [e])"
proof (cases st)
  case (Pair threads cur)
  show ?thesis
  proof (cases cur)
    case None
    with Pair assms show ?thesis by (simp add: assembled_None)
  next
    case (Some t)
    with Pair assms show ?thesis
      by (cases "normalize_subject (subject e) = normalize_subject (thread_subject t)")
         (simp_all add: assembled_Some_same assembled_Some_other)
  qed
qed

lemma threads_loop_fetched:
  "threads_loop (map Inr msgs) st s = Inr (fold (\<lambda>e st. thread_step st e) msgs st, s)"
  by (induction msgs arbitrary: st) simp_all

lemma assembled_fold:
  "assembled st seen \<Longrightarrow> assembled (fold (\<lambda>e st. thread_step st e) msgs st) (seen @ msgs)"
proof (induction msgs arbitrary: st seen)
  case Nil
  then show ?case by simp
next
  case (Cons e msgs)
  from Cons.IH[OF assembled_step[OF Cons.prems, of e]] show ?case by simp
qed

lemma get_email_threads_fetched:
  "get_email_threads s (Inr (map Inr msgs)) =
     Inr (emitted (fold (\<lambda>e st. thread_step st e) msgs ([], None)), s)"
  by (simp add: get_email_threads_def threads_loop_fetched emitted_def split: prod.splits option.splits)

lemma map_eq_four:
  assumes "map f xs = [s1, s2, s3, s4]"
  obtains a b c d where "xs = [a, b, c, d]" "f a = s1" "f b = s2" "f c = s3" "f d = s4"
  using assms by (auto simp: map_eq_Cons_conv)

lemma other_offer: "normalize_subject ''Other'' \<noteq> normalize_subject ''Offer''"
  by code_simp

lemma offer_example:
  assumes "map subject msgs = [''Offer'', ''Offer'', ''Other'', ''Offer'']"
  shows "map (\<lambda>t. length (messages t)) (emitted (fold (\<lambda>e st. thread_step st e) msgs ([], None)))
           = [2, 1, 1]"
proof -
  from assms obtain a b c d where m: "msgs = [a, b, c, d]"
    and s: "subject a = ''Offer''" "subject b = ''Offer''" "subject c = ''Other''" "subject d = ''Offer''"
    by (rule map_eq_four)
  have 1: "thread_step ([], None) a =
             ([], Some \<lparr>thread_subject = ''Offer'', messages = [a], thread_context = []\<rparr>)"
    by (simp add: thread_step_None s)
  have 2: "thread_step ([], Some \<lparr>thread_subject = ''Offer'', messages = [a], thread_context = []\<rparr>) b =
             ([], Some \<lparr>thread_subject = ''Offer'', messages = [a, b], thread_context = []\<rparr>)"
    by (simp add: thread_step_Some s)
  have 3: "thread_step ([], Some \<lparr>thread_subject = ''Offer'', messages = [a, b], thread_context = []\<rparr>) c =
             ([\<lparr>thread_subject = ''Offer'', messages = [a, b], thread_context = []\<rparr>],
              Some \<lparr>thread_subject = ''Other'', messages = [c], thread_context = []\<rparr>)"
    using other_offer by (simp add: thread_step_Some s)
  have 4: "thread_step ([\<lparr>thread_subject = ''Offer'', messages = [a, b], thread_context = []\<rparr>],
              Some \<lparr>thread_subject = ''Other'', messages = [c], thread_context = []\<rparr>) d =
             ([\<lparr>thread_subject = ''Offer'', messages = [a, b], thread_context = []\<rparr>,
               \<lparr>thread_subject = ''Other'', messages = [c], thread_context = []\<rparr>],
              Some \<lparr>thread_subject = ''Offer'', messages = [d], thread_context = []\<rparr>)"
    using other_offer[symmetric] by (simp add: thread_step_Some s)
  show ?thesis
    unfolding m by (simp add: 1 2 3 4 emitted_simps)
qed

text \<open>
  C1: the threads returned for a sequence of fetched messages partition the sequence in
  delivery order; every thread is a non-empty run whose messages all have the normalized
  subject of the thread (that of its first message); the normalized subjects of two
  consecutive threads differ, so a message joined the current thread exactly when its
  normalized subject equalled that of the current thread and opened a new one otherwise.
  For the subjects Offer, Offer, Other, Offer there are three threads of sizes 2, 1, 1.
\<close>

theorem get_email_threads_groups_runs:
  "\<exists>ts. get_email_threads s (Inr (map Inr msgs)) = Inr (ts, s) \<and>
        concat (map messages ts) = msgs \<and>
        (\<forall>t \<in> set ts.
           messages t \<noteq> [] \<and> thread_subject t = subject (hd (messages t)) \<and>
           (\<forall>m \<in> set (messages t).
              normalize_subject (subject m) = normalize_subject (thread_subject t))) \<and>
        (\<forall>i. Suc i < length ts \<longrightarrow>
           normalize_subject (thread_subject (ts ! Suc i))
             \<noteq> normalize_subject (thread_subject (ts ! i))) \<and>
        (map subject msgs = [''Offer'', ''Offer'', ''Other'', ''Offer'']
           \<longrightarrow> map (\<lambda>t. length (messages t)) ts = [2, 1, 1])"
proof -
  let ?st = "fold (\<lambda>e st. thread_step st e) msgs ([], None)"
  have "assembled ([], None) []"
    by (simp add: assembled_def emitted_simps)
  from assembled_fold[OF this, of msgs] have a: "assembled ?st msgs" by simp
  have adj: "normalize_subject (thread_subject (emitted ?st ! Suc i))
             \<noteq> normalize_subject (thread_subject (emitted ?st ! i))" if "Suc i < length (emitted ?st)" for i
  proof -
    from a have "distinct_adj (map (\<lambda>t. normalize_subject (thread_subject t)) (emitted ?st))"
      unfolding assembled_def by blast
    from distinct_adj_nth[OF this, of i] that show ?thesis by simp
  qed
  have cc: "concat (map messages (emitted ?st)) = msgs"
    using a unfolding assembled_def by blast
  have ok: "\<forall>t \<in> set (emitted ?st).
           messages t \<noteq> [] \<and> thread_subject t = subject (hd (messages t)) \<and>
           (\<forall>m \<in> set (messages t).
              normalize_subject (subject m) = normalize_subject (thread_subject t))"
    using a unfolding assembled_def run_ok_def by blast
  show ?thesis
    unfolding get_email_threads_fetched
    apply (rule exI[of _ "emitted ?st"])
    apply (intro conjI)
        apply (rule refl)
       apply (rule cc)
      apply (rule ok)
     apply (intro allI impI)
     apply (erule adj)
    apply (rule impI)
    apply (erule offer_example)
    done
qed

theorem get_email_threads_groups_runs_witness:
  "\<exists>ts. get_email_threads new_stats (Inr (map Inr offer_messages)) = Inr (ts, new_stats) \<and>
        concat (map messages ts) = offer_messages \<and>
        map (\<lambda>t. length (messages t)) ts = [2, 1, 1]"
proof -
  have "map subject offer_messages = [''Offer'', ''Offer'', ''Other'', ''Offer'']"
    by (simp add: offer_messages_def example_message_def)
  moreover from get_email_threads_groups_runs[of new_stats offer_messages]
  obtain ts where "get_email_threads new_stats (Inr (map Inr offer_messages)) = Inr (ts, new_stats)"
    and "concat (map messages ts) = offer_messages"
    and "map subject offer_messages = [''Offer'', ''Offer'', ''Other'', ''Offer'']
           \<longrightarrow> map (\<lambda>t. length (messages t)) ts = [2, 1, 1]"
    by (elim exE conjE)
  ultimately show ?thesis
    by (intro exI[of _ ts]) simp
qed

section \<open>Error categories\<close>

lemma dict_incr_missing: "k \<notin> set (map fst d) \<Longrightarrow> dict_incr d k = Inl KeyError"
  by (simp add: dict_incr_def map_of_eq_None_iff[THEN iffD2])

lemma count_and_reraise_missing:
  "key \<notin> set (map fst (errors s)) \<Longrightarrow> count_and_reraise key s e = (KeyError, s)"
  by (simp add: count_and_reraise_def count_error_def dict_incr_missing)

lemma imap_keys_not_categories:
  "''imap_connect'' \<notin> set error_categories"
  "''imap_search'' \<notin> set error_categories"
  "''imap_fetch'' \<notin> set error_categories"
  "''imap_mark'' \<notin> set error_categories"
  by (simp_all add: error_categories_def)

lemma errors_new_stats: "map fst (errors new_stats) = error_categories"
  by (simp add: new_stats_def error_categories_def)

text \<open>
  C10: the dictionary \<^verbatim>\<open>errors\<close> starts with exactly the five keys imap, lm_studio, excel,
  search and processing; incrementing any other key raises \<^verbatim>\<open>KeyError\<close>; and as long as
  the keys are these five, the handler of each IMAP operation (connect, search, fetch,
  mark-as-read) leaves with \<^verbatim>\<open>KeyError\<close> and unchanged statistics instead of counting.
\<close>

theorem errors_only_five_categories:
  "map fst (errors new_stats) = [''imap'', ''lm_studio'', ''excel'', ''search'', ''processing''] \<and>
   (\<forall>k. k \<notin> set (map fst (errors new_stats)) \<longrightarrow> dict_incr (errors new_stats) k = Inl KeyError) \<and>
   (\<forall>s e. set (map fst (errors s)) = set error_categories \<longrightarrow>
      connect_except s e = (KeyError, s) \<and>
      search_except s e = (KeyError, s) \<and>
      fetch_email_data_except s e = (KeyError, s) \<and>
      mark_as_read_except s e = (KeyError, s))"
proof (intro conjI allI impI)
  show "map fst (errors new_stats) = [''imap'', ''lm_studio'', ''excel'', ''search'', ''processing'']"
    by (simp add: new_stats_def)
next
  fix k assume "k \<notin> set (map fst (errors new_stats))"
  then show "dict_incr (errors new_stats) k = Inl KeyError"
    by (rule dict_incr_missing)
next
  fix s :: stats and e :: py_error
  assume k: "set (map fst (errors s)) = set error_categories"
  show "connect_except s e = (KeyError, s)"
    unfolding connect_except_def
    by (rule count_and_reraise_missing) (simp only: k imap_keys_not_categories not_False_eq_True)
  show "search_except s e = (KeyError, s)"
    unfolding search_except_def
    by (rule count_and_reraise_missing) (simp only: k imap_keys_not_categories not_False_eq_True)
  show "fetch_email_data_except s e = (KeyError, s)"
    unfolding fetch_email_data_except_def
    by (rule count_and_reraise_missing) (simp only: k imap_keys_not_categories not_False_eq_True)
  show "mark_as_read_except s e = (KeyError, s)"
    unfolding mark_as_read_except_def
    by (rule count_and_reraise_missing) (simp only: k imap_keys_not_categories not_False_eq_True)
qed

theorem errors_only_five_categories_witness:
  "''imap_connect'' \<notin> set (map fst (errors new_stats)) \<and>
   dict_incr (errors new_stats) ''imap_connect'' = Inl KeyError \<and>
   set (map fst (errors new_stats)) = set error_categories \<and>
   connect_except new_stats (OtherError ''timed out'') = (KeyError, new_stats) \<and>
   mark_as_read_except new_stats (OtherError ''timed out'') = (KeyError, new_stats)"
proof -
  have 1: "''imap_connect'' \<notin> set (map fst (errors new_stats))"
    by (simp add: errors_new_stats imap_keys_not_categories)
  have 2: "set (map fst (errors new_stats)) = set error_categories"
    by (simp add: errors_new_stats)
  from errors_only_five_categories 1 2 show ?thesis
    by blast
qed

lemma count_error_keys:
  assumes "count_error s k = Inr s'"
  shows "map fst (errors s') = map fst (errors s)"
proof -
  from assms obtain v where v: "map_of (errors s) k = Some v"
    and s': "s' = s\<lparr>errors := AList.update k (v + 1) (errors s)\<rparr>"
    by (auto simp: count_error_def dict_incr_def split: option.splits)
  from v have "k \<in> set (map fst (errors s))"
    by (metis map_of_eq_None_iff option.distinct(1) set_map)
  with s' show ?thesis
    by (simp add: AList.update_keys)
qed

section \<open>Retry with backoff\<close>

lemma sleep_accepted: "0 \<le> secs \<Longrightarrow> secs \<le> max_sleep \<Longrightarrow> sleep max_sleep secs = None"
  by (simp add: sleep_def)

lemma wrapper_loop_success:
  assumes "int N = n" "func k = Inr v" "k < N"
  shows "a \<le> k \<Longrightarrow> (\<forall>j. a \<le> j \<and> j < k \<longrightarrow> isl (func j)) \<Longrightarrow>
         (\<forall>j. a \<le> j \<and> j < k \<longrightarrow> sleep ms (D' * 2 ^ (j - a)) = None) \<Longrightarrow>
         wrapper_loop ms func n [a..<N] D' lst sl a =
           \<lparr>outcome = Inr (Some v), slept = sl @ map (\<lambda>j. D' * 2 ^ (j - a)) [a..<k], calls = Suc k\<rparr>"
proof (induction "k - a" arbitrary: a D' lst sl)
  case 0
  then have "a = k" by simp
  with assms have "[a..<N] = k # [Suc k..<N]" by (simp add: upt_conv_Cons)
  with \<open>a = k\<close> assms show ?case by simp
next
  case (Suc m)
  then have ak: "a < k" and m: "m = k - Suc a" by simp_all
  with assms have l: "[a..<N] = a # [Suc a..<N]" by (simp add: upt_conv_Cons)
  from Suc.prems ak obtain e where e: "func a = Inl e"
    by (metis isl_def le_refl)
  from ak assms have lt: "int a < n - 1" by auto
  from Suc.prems(3) ak have s0: "sleep ms D' = None"
    by (metis diff_self_eq_0 le_refl mult.right_neutral power_0)
  have shift: "D' * 2 * 2 ^ (j - Suc a) = D' * 2 ^ (j - a)" if "Suc a \<le> j" for j
  proof -
    from that have "j - a = Suc (j - Suc a)" by auto
    then show ?thesis by simp
  qed
  have sl': "\<forall>j. Suc a \<le> j \<and> j < k \<longrightarrow> sleep ms (D' * 2 * 2 ^ (j - Suc a)) = None"
  proof (intro allI impI)
    fix j assume j: "Suc a \<le> j \<and> j < k"
    with Suc.prems(3) have "sleep ms (D' * 2 ^ (j - a)) = None" by auto
    with j show "sleep ms (D' * 2 * 2 ^ (j - Suc a)) = None" by (simp add: shift)
  qed
  have ih: "wrapper_loop ms func n [Suc a..<N] (D' * 2) (Some e) (sl @ [D']) (Suc a) =
           \<lparr>outcome = Inr (Some v),
            slept = (sl @ [D']) @ map (\<lambda>j. (D' * 2) * 2 ^ (j - Suc a)) [Suc a..<k],
            calls = Suc k\<rparr>"
    using Suc.prems ak sl' by (intro Suc.hyps(1)[OF m]) auto
  have "map (\<lambda>j. (D' * 2) * 2 ^ (j - Suc a)) [Suc a..<k] = map (\<lambda>j. D' * 2 ^ (j - a)) [Suc a..<k]"
    by (rule map_cong[OF refl]) (simp add: shift)
  moreover from ak have "[a..<k] = a # [Suc a..<k]" by (simp add: upt_conv_Cons)
  ultimately show ?case
    using e lt s0 by (simp add: l ih)
qed

lemma wrapper_loop_exhausted:
  assumes "int N = n" "func (N - 1) = Inl e"
  shows "a < N \<Longrightarrow> (\<forall>j. a \<le> j \<and> j < N \<longrightarrow> isl (func j)) \<Longrightarrow>
         (\<forall>j. a \<le> j \<and> j < N - 1 \<longrightarrow> sleep ms (D' * 2 ^ (j - a)) = None) \<Longrightarrow>
         wrapper_loop ms func n [a..<N] D' lst sl a =
           \<lparr>outcome = Inl e, slept = sl @ map (\<lambda>j. D' * 2 ^ (j - a)) [a..<N - 1], calls = N\<rparr>"
proof (induction "N - 1 - a" arbitrary: a D' lst sl)
  case 0
  then have a: "a = N - 1" "Suc a = N" by simp_all
  then have l: "[a..<N] = [a]" by (metis upt_rec lessI upt_eq_Nil_conv le_refl)
  from a assms have "\<not> int a < n - 1" by auto
  with a assms l show ?case by simp
next
  case (Suc m)
  then have aN: "Suc a < N" and m: "m = N - 1 - Suc a" by simp_all
  then have l: "[a..<N] = a # [Suc a..<N]" by (simp add: upt_conv_Cons)
  from Suc.prems obtain e' where e': "func a = Inl e'"
    by (metis isl_def le_refl)
  from aN assms have lt: "int a < n - 1" by auto
  from aN have "a < N - 1" by simp
  with Suc.prems(3) have s0: "sleep ms D' = None"
    by (metis diff_self_eq_0 le_refl mult.right_neutral power_0)
  have shift: "D' * 2 * 2 ^ (j - Suc a) = D' * 2 ^ (j - a)" if "Suc a \<le> j" for j
  proof -
    from that have "j - a = Suc (j - Suc a)" by auto
    then show ?thesis by simp
  qed
  have sl': "\<forall>j. Suc a \<le> j \<and> j < N - 1 \<longrightarrow> sleep ms (D' * 2 * 2 ^ (j - Suc a)) = None"
  proof (intro allI impI)
    fix j assume j: "Suc a \<le> j \<and> j < N - 1"
    with Suc.prems(3) have "sleep ms (D' * 2 ^ (j - a)) = None" by auto
    with j show "sleep ms (D' * 2 * 2 ^ (j - Suc a)) = None" by (simp add: shift)
  qed
  have ih: "wrapper_loop ms func n [Suc a..<N] (D' * 2) (Some e') (sl @ [D']) (Suc a) =
           \<lparr>outcome = Inl e,
            slept = (sl @ [D']) @ map (\<lambda>j. (D' * 2) * 2 ^ (j - Suc a)) [Suc a..<N - 1],
            calls = N\<rparr>"
    using Suc.prems aN sl' by (intro Suc.hyps(1)[OF m]) auto
  have "map (\<lambda>j. (D' * 2) * 2 ^ (j - Suc a)) [Suc a..<N - 1]
          = map (\<lambda>j. D' * 2 ^ (j - a)) [Suc a..<N - 1]"
    by (rule map_cong[OF refl]) (simp add: shift)
  moreover from aN have "[a..<N - 1] = a # [Suc a..<N - 1]" by (simp add: upt_conv_Cons)
  ultimately show ?case
    using e' lt s0 by (simp add: l ih)
qed

text \<open>
  C3, as stated, fails: with three attempts and the base delay -1, a function that
  always fails is called once; the sleep before the first retry raises \<^verbatim>\<open>ValueError\<close>,
  so nothing is slept, nothing is retried and the failure of the function is not the
  exception raised. With a base delay beyond the range of \<^verbatim>\<open>time.sleep\<close> the same
  happens with \<^verbatim>\<open>OverflowError\<close>.
\<close>

theorem retry_with_backoff_refused_delay:
  "retry_with_backoff example_max_sleep 3 (-1)
     (\<lambda>k. Inl (OtherError ''timed out'') :: py_error + nat) =
     \<lparr>outcome = Inl ValueError, slept = [], calls = 1\<rparr> \<and>
   retry_with_backoff example_max_sleep 3 10000000000
     (\<lambda>k. Inl (OtherError ''timed out'') :: py_error + nat) =
     \<lparr>outcome = Inl OverflowError, slept = [], calls = 1\<rparr>"
proof -
  have u: "[0..<3] = [0, Suc 0, Suc (Suc 0)]"
    by (simp add: upt_rec)
  have n: "nat 3 = 3"
    by simp
  show ?thesis
    by (simp add: retry_with_backoff_def n u sleep_def example_max_sleep_def)
qed

text \<open>
  C3, amended: with at least one attempt, and as long as every delay to be slept is one
  that \<^verbatim>\<open>time.sleep\<close> accepts (not negative and within its range), the wrapper returns
  the result of the first successful call and calls no more; before each retry it has
  slept the current delay, which doubles from the base delay (no jitter, no cap); when
  all attempts fail it has slept before every attempt but the first, never after the
  last, and raises the failure of the last call. A function failing on calls 1 and 2
  and succeeding on call 3 returns that result after sleeping the delay and twice the
  delay.
\<close>

theorem retry_with_backoff_policy:
  assumes "1 \<le> n"
  shows "(\<forall>k v. k < nat n \<and> func k = Inr v \<and> (\<forall>j<k. isl (func j)) \<and>
                (\<forall>j<k. 0 \<le> d * 2 ^ j \<and> d * 2 ^ j \<le> max_sleep) \<longrightarrow>
            retry_with_backoff max_sleep n d func =
              \<lparr>outcome = Inr (Some v), slept = map (\<lambda>j. d * 2 ^ j) [0..<k], calls = Suc k\<rparr>) \<and>
         (\<forall>e. (\<forall>j<nat n. isl (func j)) \<and> func (nat n - 1) = Inl e \<and>
              (\<forall>j<nat n - 1. 0 \<le> d * 2 ^ j \<and> d * 2 ^ j \<le> max_sleep) \<longrightarrow>
            retry_with_backoff max_sleep n d func =
              \<lparr>outcome = Inl e, slept = map (\<lambda>j. d * 2 ^ j) [0..<nat n - 1], calls = nat n\<rparr>) \<and>
         (\<forall>e0 e1 v. func 0 = Inl e0 \<and> func 1 = Inl e1 \<and> func 2 = Inr v \<and>
                    0 \<le> d \<and> 2 * d \<le> max_sleep \<longrightarrow>
            retry_with_backoff max_sleep 3 d func =
              \<lparr>outcome = Inr (Some v), slept = [d, 2 * d], calls = 3\<rparr>)"
proof (intro conjI allI impI)
  fix k v
  assume h: "k < nat n \<and> func k = Inr v \<and> (\<forall>j<k. isl (func j)) \<and>
             (\<forall>j<k. 0 \<le> d * 2 ^ j \<and> d * 2 ^ j \<le> max_sleep)"
  from assms(1) have N: "int (nat n) = n" by simp
  from h have s: "\<forall>j. 0 \<le> j \<and> j < k \<longrightarrow> sleep max_sleep (d * 2 ^ (j - 0)) = None"
    by (simp add: sleep_accepted)
  from h have "wrapper_loop max_sleep func n [0..<nat n] d None [] 0 =
      \<lparr>outcome = Inr (Some v), slept = [] @ map (\<lambda>j. d * 2 ^ (j - 0)) [0..<k], calls = Suc k\<rparr>"
    using s by (intro wrapper_loop_success[OF N]) auto
  then show "retry_with_backoff max_sleep n d func =
      \<lparr>outcome = Inr (Some v), slept = map (\<lambda>j. d * 2 ^ j) [0..<k], calls = Suc k\<rparr>"
    by (simp add: retry_with_backoff_def)
next
  fix e
  assume h: "(\<forall>j<nat n. isl (func j)) \<and> func (nat n - 1) = Inl e \<and>
             (\<forall>j<nat n - 1. 0 \<le> d * 2 ^ j \<and> d * 2 ^ j \<le> max_sleep)"
  from assms(1) have N: "int (nat n) = n" and pos: "0 < nat n" by simp_all
  from h have s: "\<forall>j. 0 \<le> j \<and> j < nat n - 1 \<longrightarrow> sleep max_sleep (d * 2 ^ (j - 0)) = None"
    by (simp add: sleep_accepted)
  from h have "wrapper_loop max_sleep func n [0..<nat n] d None [] 0 =
      \<lparr>outcome = Inl e, slept = [] @ map (\<lambda>j. d * 2 ^ (j - 0)) [0..<nat n - 1], calls = nat n\<rparr>"
    using pos s by (intro wrapper_loop_exhausted[OF N]) auto
  then show "retry_with_backoff max_sleep n d func =
      \<lparr>outcome = Inl e, slept = map (\<lambda>j. d * 2 ^ j) [0..<nat n - 1], calls = nat n\<rparr>"
    by (simp add: retry_with_backoff_def)
next
  fix e0 e1 v
  assume h: "func 0 = Inl e0 \<and> func 1 = Inl e1 \<and> func 2 = Inr v \<and>
             0 \<le> d \<and> 2 * d \<le> max_sleep"
  have N: "int (3::nat) = 3" by simp
  have j: "isl (func j)" if "j < 2" for j
  proof -
    from that have "j = 0 \<or> j = 1" by auto
    with h show ?thesis by auto
  qed
  have s: "sleep max_sleep (d * 2 ^ (j - 0)) = None" if "j < 2" for j
  proof -
    from that have "j = 0 \<or> j = 1" by auto
    with h show ?thesis by (auto simp: sleep_def)
  qed
  have "wrapper_loop max_sleep func 3 [0..<3] d None [] 0 =
      \<lparr>outcome = Inr (Some v), slept = [] @ map (\<lambda>j. d * 2 ^ (j - 0)) [0..<2], calls = Suc 2\<rparr>"
    using h j s by (intro wrapper_loop_success[OF N]) auto
  moreover have "[0..<2] = [0, Suc 0]" by (simp add: upt_rec)
  ultimately show "retry_with_backoff max_sleep 3 d func =
      \<lparr>outcome = Inr (Some v), slept = [d, 2 * d], calls = 3\<rparr>"
    by (simp add: retry_with_backoff_def)
qed

theorem retry_with_backoff_policy_witness:
  "retry_with_backoff example_max_sleep 3 1
     (\<lambda>k. if k < 2 then Inl (OtherError ''timed out'') else Inr (42::nat)) =
     \<lparr>outcome = Inr (Some 42), slept = [1, 2], calls = 3\<rparr> \<and>
   retry_with_backoff example_max_sleep 3 1
     (\<lambda>k. if k < 2 then Inl (OtherError ''timed out'') else (Inl RuntimeError :: py_error + nat)) =
     \<lparr>outcome = Inl RuntimeError, slept = [1, 2], calls = 3\<rparr>"
proof -
  let ?f = "\<lambda>k::nat. if k < 2 then Inl (OtherError ''timed out'') else (Inr 42 :: py_error + nat)"
  let ?g = "\<lambda>k::nat. if k < 2 then Inl (OtherError ''timed out'') else (Inl RuntimeError :: py_error + nat)"
  have a: "(1::int) \<le> 3" by simp
  have u2: "[0..<2] = [0, Suc 0]" by (simp add: upt_rec)
  have r: "(0::real) \<le> 1 * 2 ^ j \<and> (1::real) * 2 ^ j \<le> example_max_sleep" if "j < 2" for j
  proof -
    from that have "j = 0 \<or> j = 1" by auto
    then show ?thesis by (auto simp: example_max_sleep_def)
  qed
  have "(2::nat) < nat 3 \<and> ?f 2 = Inr 42 \<and> (\<forall>j<2. isl (?f j)) \<and>
        (\<forall>j<2. (0::real) \<le> 1 * 2 ^ j \<and> (1::real) * 2 ^ j \<le> example_max_sleep)"
    using r by simp
  with retry_with_backoff_policy[OF a, of ?f 1 example_max_sleep]
  have 1: "retry_with_backoff example_max_sleep 3 1 ?f =
     \<lparr>outcome = Inr (Some 42), slept = map (\<lambda>j. 1 * 2 ^ j) [0..<2], calls = Suc 2\<rparr>"
    by blast
  have n3: "nat 3 - 1 = (2::nat)" by simp
  have "(\<forall>j<nat 3. isl (?g j)) \<and> ?g (nat 3 - 1) = Inl RuntimeError \<and>
        (\<forall>j<nat 3 - 1. (0::real) \<le> 1 * 2 ^ j \<and> (1::real) * 2 ^ j \<le> example_max_sleep)"
    using r by (simp add: n3)
  with retry_with_backoff_policy[OF a, of ?g 1 example_max_sleep]
  have 2: "retry_with_backoff example_max_sleep 3 1 ?g =
     \<lparr>outcome = Inl RuntimeError, slept = map (\<lambda>j. 1 * 2 ^ j) [0..<nat 3 - 1], calls = nat 3\<rparr>"
    by blast
  from 1 2 show ?thesis
    by (simp add: u2 n3)
qed

section \<open>Reply search\<close>



text \<open>
  No message is ever parsed: the name \<^verbatim>\<open>email\<close> is not bound in the module, and the
  \<^verbatim>\<open>NameError\<close> is caught inside \<^verbatim>\<open>_fetch_and_parse_message\<close>.
\<close>

lemma fetch_and_parse_message_None: "fetch_and_parse_message env u = None"
  by (simp add: fetch_and_parse_message_def load_global_def search_module_globals_def
      split: sum.splits prod.splits)





section \<open>The date window of the third strategy\<close>

lemma load_global_timedelta: "load_global ''timedelta'' = Inl NameError"
  by (simp add: load_global_def search_module_globals_def)

lemma search_by_subject_and_from_no_date:
  assumes "case item_date item of None \<Rightarrow> True | Some d \<Rightarrow> isl (parsedate_to_datetime env d)"
  shows "search_by_subject_and_from env now item = Inl NameError"
  using assms
  by (auto simp: search_by_subject_and_from_def subscript_def load_global_timedelta isl_def
      split: option.splits)

text \<open>
  C6 at a sent item whose date does not parse: the handler of the parse failure reads
  the name \<^verbatim>\<open>timedelta\<close>, which the module does not import, so the strategy raises
  \<^verbatim>\<open>NameError\<close> and searches nothing; \<^verbatim>\<open>find_reply_optimized\<close> counts the failure under
  \<^verbatim>\<open>'search'\<close> and returns no reply.
\<close>

theorem unparsable_date_raises_NameError:
  "parsedate_to_datetime example_env ''yesterday'' = Inl ValueError \<and>
   search_by_subject_and_from example_env 1704103200 example_item = Inl NameError \<and>
   map_sum id (\<lambda>(r, s, tried). (r, errors s, tried))
     (find_reply_optimized example_env 1704103200 new_stats example_item)
     = Inr (None,
            [(''imap'', 0), (''lm_studio'', 0), (''excel'', 0), (''search'', 1), (''processing'', 0)],
            [''message_id'', ''references'', ''subject_from''])"
  by code_simp

section \<open>Row matching\<close>

lemma rows_loop_matches:
  assumes mc: "mail_column m \<in> set (columns d)"
  shows "(\<forall>idx \<in> set idxs. is_text (cells d idx (mail_column m)) \<and>
            (response_mail_column m \<in> set (columns d)
               \<longrightarrow> is_text (cells d idx (response_mail_column m)))) \<Longrightarrow>
         rows_loop m d (normalize_email original) (normalize_email ` related) idxs acc =
           Inr (acc @ map (\<lambda>idx. (idx, matched_address m d original related idx))
                        (filter (candidate m d original related) idxs))"
proof (induction idxs arbitrary: acc)
  case Nil
  then show ?case by simp
next
  case (Cons idx idxs)
  from Cons.prems obtain p where p: "cells d idx (mail_column m) = Str p"
    by (auto simp: is_text_def split: pyval.splits)
  have rest: "\<forall>idx \<in> set idxs. is_text (cells d idx (mail_column m)) \<and>
            (response_mail_column m \<in> set (columns d)
               \<longrightarrow> is_text (cells d idx (response_mail_column m)))"
    using Cons.prems by simp
  note ih = Cons.IH[OF rest]
  show ?case
  proof (cases "cell_hit d original related idx (mail_column m)")
    case True
    then have c: "candidate m d original related idx" by (simp add: candidate_def)
    from True p have h: "normalize_email p \<noteq> [] \<and>
        (normalize_email p = normalize_email original \<or> normalize_email p \<in> normalize_email ` related)"
      by (simp add: cell_hit_def address_hit_def)
    have ma: "matched_address m d original related idx = normalize_email p"
      using True p by (simp add: matched_address_def cell_address_def)
    show ?thesis
      using h by (simp add: row_get_def mc p normalize_email_cell_def ih c ma)
  next
    case False
    with p have nh: "\<not> (normalize_email p \<noteq> [] \<and>
        (normalize_email p = normalize_email original \<or> normalize_email p \<in> normalize_email ` related))"
      by (simp add: cell_hit_def address_hit_def)
    show ?thesis
    proof (cases "response_mail_column m \<in> set (columns d)")
      case no: False
      with False have c: "\<not> candidate m d original related idx" by (simp add: candidate_def)
      show ?thesis
        using nh no by (simp add: row_get_def mc p normalize_email_cell_def ih c in_row_def)
    next
      case yes: True
      with Cons.prems obtain r where r: "cells d idx (response_mail_column m) = Str r"
        by (auto simp: is_text_def split: pyval.splits)
      show ?thesis
      proof (cases "cell_hit d original related idx (response_mail_column m)")
        case True
        with yes have c: "candidate m d original related idx" by (simp add: candidate_def)
        from True r have h: "normalize_email r \<noteq> [] \<and>
          (normalize_email r = normalize_email original \<or> normalize_email r \<in> normalize_email ` related)"
          by (simp add: cell_hit_def address_hit_def)
        have ma: "matched_address m d original related idx = normalize_email r"
          using False r by (simp add: matched_address_def cell_address_def)
        show ?thesis
          using nh h yes by (auto simp: row_get_def mc p r normalize_email_cell_def ih c ma in_row_def)
      next
        case nr: False
        with False have c: "\<not> candidate m d original related idx" by (simp add: candidate_def)
        from nr r have h: "\<not> (normalize_email r \<noteq> [] \<and>
          (normalize_email r = normalize_email original \<or> normalize_email r \<in> normalize_email ` related))"
          by (simp add: cell_hit_def address_hit_def)
        show ?thesis
          using nh h yes by (simp add: row_get_def mc p r normalize_email_cell_def ih c in_row_def)
      qed
    qed
  qed
qed

text \<open>
  C2, as stated, fails: a row whose primary address is blank is not returned for a
  blank query address (the sender of a message without a usable From header), although
  its normalized primary address equals the normalized query address.
\<close>

theorem find_related_rows_skips_blank_address:
  "find_related_rows blank_manager [] {} = Inr [] \<and>
   filter (claimed_candidate blank_manager blank_frame [] {}) (index blank_frame) = [0]"
  by code_simp

text \<open>
  C2, amended: on a loaded table (the primary-address column exists and the address
  cells hold text), \<^verbatim>\<open>find_related_rows\<close> returns, in table order and each once, exactly the
  rows whose normalized primary address or (when the column is present) normalized
  response address is not empty and equals the normalized query address or is a member
  of the normalized related set, each with the address that matched; all such rows, not
  only the first. For the primary addresses a@x.com, B@X.com and the query b@x.com it
  returns exactly the second row.
\<close>

theorem find_related_rows_all_candidates:
  assumes "df m = Some d" and "mail_column m \<in> set (columns d)"
    and "\<forall>idx \<in> set (index d). is_text (cells d idx (mail_column m)) \<and>
            (response_mail_column m \<in> set (columns d)
               \<longrightarrow> is_text (cells d idx (response_mail_column m)))"
  shows "find_related_rows m original related =
           Inr (map (\<lambda>idx. (idx, matched_address m d original related idx))
                  (filter (candidate m d original related) (index d))) \<and>
         find_related_rows example_manager ''b@x.com'' {} = Inr [(1, ''b@x.com'')]"
proof
  show "find_related_rows m original related =
           Inr (map (\<lambda>idx. (idx, matched_address m d original related idx))
                  (filter (candidate m d original related) (index d)))"
    using rows_loop_matches[OF assms(2) assms(3), of original related "[]"]
    by (simp add: find_related_rows_def assms(1))
  show "find_related_rows example_manager ''b@x.com'' {} = Inr [(1, ''b@x.com'')]"
    by code_simp
qed

theorem find_related_rows_all_candidates_witness:
  "df example_manager = Some example_frame \<and>
   mail_column example_manager \<in> set (columns example_frame) \<and>
   find_related_rows example_manager ''B@x.com '' {''A@X.COM''} =
     Inr [(0, ''a@x.com''), (1, ''b@x.com'')]"
proof -
  have 1: "df example_manager = Some example_frame"
    by (simp add: example_manager_def)
  have 2: "mail_column example_manager \<in> set (columns example_frame)"
    by (simp add: example_manager_def example_frame_def)
  have 3: "\<forall>idx \<in> set (index example_frame).
      is_text (cells example_frame idx (mail_column example_manager)) \<and>
      (response_mail_column example_manager \<in> set (columns example_frame)
         \<longrightarrow> is_text (cells example_frame idx (response_mail_column example_manager)))"
    by code_simp
  have 4: "map (\<lambda>idx. (idx, matched_address example_manager example_frame ''B@x.com '' {''A@X.COM''} idx))
     (filter (candidate example_manager example_frame ''B@x.com '' {''A@X.COM''})
        (index example_frame)) = [(0, ''a@x.com''), (1, ''b@x.com'')]"
    by code_simp
  from find_related_rows_all_candidates[OF 1 2 3, of "''B@x.com ''" "{''A@X.COM''}"]
  have "find_related_rows example_manager ''B@x.com '' {''A@X.COM''} =
     Inr (map (\<lambda>idx. (idx, matched_address example_manager example_frame ''B@x.com '' {''A@X.COM''} idx))
            (filter (candidate example_manager example_frame ''B@x.com '' {''A@X.COM''})
               (index example_frame)))"
    by (elim conjE)
  then have "find_related_rows example_manager ''B@x.com '' {''A@X.COM''} =
     Inr [(0, ''a@x.com''), (1, ''b@x.com'')]"
    by (simp only: 4)
  with 1 2 show ?thesis
    by (intro conjI)
qed

section \<open>Applying an update\<close>

lemma cells_at_set_same: "cells (at_set d i c v) i c = v"
  by (simp add: at_set_def)

lemma cells_at_set_row:
  "i \<in> set (index d) \<Longrightarrow> c' \<noteq> c \<Longrightarrow> cells (at_set d i c v) i c' = cells d i c'"
  by (simp add: at_set_def)

lemma cells_at_set_other_row:
  "i' \<noteq> i \<Longrightarrow> c' \<in> set (columns d) \<Longrightarrow> cells (at_set d i c v) i' c' = cells d i' c'"
  by (auto simp: at_set_def)

lemma index_at_set: "i \<in> set (index d) \<Longrightarrow> index (at_set d i c v) = index d"
  by (simp add: at_set_def)

lemma columns_at_set: "set (columns d) \<subseteq> set (columns (at_set d i c v))"
  by (auto simp: at_set_def)

lemma index_write_fields:
  "i \<in> set (index d) \<Longrightarrow> index (write_fields cm i data d) = index d"
  by (induction cm i data d rule: write_fields.induct)
     (simp_all add: index_at_set split: option.splits)

lemma columns_write_fields:
  "set (columns d) \<subseteq> set (columns (write_fields cm i data d))"
proof (induction cm i data d rule: write_fields.induct)
  case (1 cm row_idx d)
  then show ?case by simp
next
  case (2 cm row_idx key v rest d)
  show ?case
  proof (cases "map_of cm key")
    case None
    with 2 show ?thesis by simp
  next
    case (Some col)
    with 2(2)[OF Some] columns_at_set[of d row_idx col "strip_value v"] show ?thesis
      by (simp add: Some)
  qed
qed

lemma write_fields_append:
  "write_fields cm i (xs @ ys) d = write_fields cm i ys (write_fields cm i xs d)"
  by (induction cm i xs d rule: write_fields.induct) (simp_all split: option.splits)

lemma write_fields_frame:
  "i \<in> set (index d) \<Longrightarrow> \<forall>key \<in> fst ` set data. map_of cm key \<noteq> Some c \<Longrightarrow>
   cells (write_fields cm i data d) i c = cells d i c"
proof (induction cm i data d rule: write_fields.induct)
  case (1 cm row_idx d)
  then show ?case by simp
next
  case (2 cm row_idx key v rest d)
  show ?case
  proof (cases "map_of cm key")
    case None
    with 2 show ?thesis by simp
  next
    case (Some col)
    with 2(4) have ne: "c \<noteq> col" by auto
    have "row_idx \<in> set (index (at_set d row_idx col (strip_value v)))"
      using 2(3) by (simp add: index_at_set)
    from 2(2)[OF Some this] 2(4) 2(3) ne show ?thesis
      by (simp add: Some cells_at_set_row)
  qed
qed

lemma write_fields_other_rows:
  "i' \<noteq> i \<Longrightarrow> c \<in> set (columns d) \<Longrightarrow> cells (write_fields cm i data d) i' c = cells d i' c"
proof (induction cm i data d rule: write_fields.induct)
  case (1 cm row_idx d)
  then show ?case by simp
next
  case (2 cm row_idx key v rest d)
  show ?case
  proof (cases "map_of cm key")
    case None
    with 2 show ?thesis by simp
  next
    case (Some col)
    from 2(4) columns_at_set[of d row_idx col "strip_value v"]
    have "c \<in> set (columns (at_set d row_idx col (strip_value v)))" by blast
    from 2(2)[OF Some 2(3) this] 2(3) 2(4) show ?thesis
      by (simp add: Some cells_at_set_other_row)
  qed
qed

lemma write_fields_written:
  assumes "i \<in> set (index d)" "map_of cm key = Some col"
    and "\<forall>k' \<in> fst ` set post. map_of cm k' \<noteq> Some col"
  shows "cells (write_fields cm i (pre @ (key, v) # post) d) i col = strip_value v"
proof -
  let ?d1 = "write_fields cm i pre d"
  have i1: "i \<in> set (index ?d1)"
    using assms(1) by (simp add: index_write_fields)
  then have "i \<in> set (index (at_set ?d1 i col (strip_value v)))"
    by (simp add: index_at_set)
  from write_fields_frame[OF this assms(3)] show ?thesis
    by (simp add: write_fields_append assms(2) cells_at_set_same)
qed

lemma write_response_cases:
  "write_response m i resp d = Inr d \<or>
   (\<exists>e. write_response m i resp d = Inl (e, d)) \<or>
   (\<exists>r. resp = Some r \<and> write_response m i resp d = Inr (at_set d i (response_mail_column m) (Str r)))"
  by (auto simp: write_response_def split: option.splits sum.splits)

lemma write_response_None: "write_response m i None d = Inr d"
  by (simp add: write_response_def)

lemma update_row_data_result:
  assumes "df m = Some d" "map_of (errors (manager_stats m)) ''excel'' = Some n"
  shows "\<exists>m'. update_row_data m i data resp = Inr m' \<and>
           (df m' = Some (write_fields (column_mapping m) i data d) \<or>
            (\<exists>r. resp = Some r \<and>
                 df m' = Some (at_set (write_fields (column_mapping m) i data d) i
                                 (response_mail_column m) (Str r))))"
  using write_response_cases[of m i resp "write_fields (column_mapping m) i data d"]
  by (auto simp: update_row_data_def assms count_error_def dict_incr_def)

text \<open>
  C7: on a table that holds the row, the update writes the trimmed value of each field
  of the analysis result whose name is in the column map into the cell of the row in the
  column the map gives (when several fields go to one column, the cell keeps the last),
  and every cell of the row in a column that no configured field of the result goes to
  is unchanged: a field whose name is not in the map is written nowhere. The cells of
  the other rows are unchanged too. The response-address cell is set aside when a
  response address is passed: it is the subject of C8.
\<close>

theorem update_row_data_writes_configured_fields:
  assumes "df m = Some d" and "row_idx \<in> set (index d)"
    and "map_of (errors (manager_stats m)) ''excel'' = Some n"
  shows "\<exists>m' d'. update_row_data m row_idx data response_email = Inr m' \<and> df m' = Some d' \<and>
     (\<forall>pre key v post col.
        data = pre @ (key, v) # post \<and> map_of (column_mapping m) key = Some col \<and>
        (\<forall>k' \<in> fst ` set post. map_of (column_mapping m) k' \<noteq> Some col) \<and>
        (col \<noteq> response_mail_column m \<or> response_email = None)
        \<longrightarrow> cells d' row_idx col = strip_value v) \<and>
     (\<forall>c. (\<forall>key \<in> fst ` set data. map_of (column_mapping m) key \<noteq> Some c) \<and>
          (c \<noteq> response_mail_column m \<or> response_email = None)
        \<longrightarrow> cells d' row_idx c = cells d row_idx c) \<and>
     (\<forall>i c. i \<noteq> row_idx \<and> c \<in> set (columns d) \<longrightarrow> cells d' i c = cells d i c)"
proof -
  let ?cm = "column_mapping m"
  let ?d1 = "write_fields ?cm row_idx data d"
  have w: "cells ?d1 row_idx col = strip_value v"
    if "data = pre @ (key, v) # post" "map_of ?cm key = Some col"
       "\<forall>k' \<in> fst ` set post. map_of ?cm k' \<noteq> Some col" for pre key v post col
    using write_fields_written[OF assms(2) that(2) that(3), of pre v] that(1) by simp
  have f: "cells ?d1 row_idx c = cells d row_idx c"
    if "\<forall>key \<in> fst ` set data. map_of ?cm key \<noteq> Some c" for c
    using write_fields_frame[OF assms(2) that] .
  have o: "cells ?d1 i c = cells d i c" if "i \<noteq> row_idx" "c \<in> set (columns d)" for i c
    using write_fields_other_rows[OF that] .
  have i1: "row_idx \<in> set (index ?d1)"
    using assms(2) by (simp add: index_write_fields)
  from update_row_data_result[OF assms(1) assms(3), of row_idx data response_email]
  obtain m' where m': "update_row_data m row_idx data response_email = Inr m'"
    and alt: "df m' = Some ?d1 \<or>
        (\<exists>r. response_email = Some r \<and>
             df m' = Some (at_set ?d1 row_idx (response_mail_column m) (Str r)))"
    by (elim exE conjE)
  from alt show ?thesis
  proof
    assume d': "df m' = Some ?d1"
    have 1: "\<forall>pre key v post col.
        data = pre @ (key, v) # post \<and> map_of ?cm key = Some col \<and>
        (\<forall>k' \<in> fst ` set post. map_of ?cm k' \<noteq> Some col) \<and>
        (col \<noteq> response_mail_column m \<or> response_email = None)
        \<longrightarrow> cells ?d1 row_idx col = strip_value v"
    proof (intro allI impI, elim conjE)
      fix pre key v post col
      assume "data = pre @ (key, v) # post" "map_of ?cm key = Some col"
        "\<forall>k' \<in> fst ` set post. map_of ?cm k' \<noteq> Some col"
      then show "cells ?d1 row_idx col = strip_value v" by (rule w)
    qed
    have 2: "\<forall>c. (\<forall>key \<in> fst ` set data. map_of ?cm key \<noteq> Some c) \<and>
          (c \<noteq> response_mail_column m \<or> response_email = None)
        \<longrightarrow> cells ?d1 row_idx c = cells d row_idx c"
    proof (intro allI impI, elim conjE)
      fix c assume "\<forall>key \<in> fst ` set data. map_of ?cm key \<noteq> Some c"
      then show "cells ?d1 row_idx c = cells d row_idx c" by (rule f)
    qed
    have 3: "\<forall>i c. i \<noteq> row_idx \<and> c \<in> set (columns d) \<longrightarrow> cells ?d1 i c = cells d i c"
      using o by simp
    show ?thesis
      by (rule exI[of _ m'], rule exI[of _ ?d1], intro conjI) (rule m' d' 1 2 3)+
  next
    assume "\<exists>r. response_email = Some r \<and>
             df m' = Some (at_set ?d1 row_idx (response_mail_column m) (Str r))"
    then obtain r where r: "response_email = Some r"
      and d': "df m' = Some (at_set ?d1 row_idx (response_mail_column m) (Str r))"
      by (elim exE conjE)
    let ?d' = "at_set ?d1 row_idx (response_mail_column m) (Str r)"
    have a: "cells ?d' row_idx c = cells ?d1 row_idx c" if "c \<noteq> response_mail_column m" for c
      using cells_at_set_row[OF i1 that] .
    have 1: "\<forall>pre key v post col.
        data = pre @ (key, v) # post \<and> map_of ?cm key = Some col \<and>
        (\<forall>k' \<in> fst ` set post. map_of ?cm k' \<noteq> Some col) \<and>
        (col \<noteq> response_mail_column m \<or> response_email = None)
        \<longrightarrow> cells ?d' row_idx col = strip_value v"
    proof (intro allI impI, elim conjE)
      fix pre key v post col
      assume h: "data = pre @ (key, v) # post" "map_of ?cm key = Some col"
        "\<forall>k' \<in> fst ` set post. map_of ?cm k' \<noteq> Some col"
      assume "col \<noteq> response_mail_column m \<or> response_email = None"
      with r have "col \<noteq> response_mail_column m" by simp
      from a[OF this] w[OF h] show "cells ?d' row_idx col = strip_value v" by simp
    qed
    have 2: "\<forall>c. (\<forall>key \<in> fst ` set data. map_of ?cm key \<noteq> Some c) \<and>
          (c \<noteq> response_mail_column m \<or> response_email = None)
        \<longrightarrow> cells ?d' row_idx c = cells d row_idx c"
    proof (intro allI impI, elim conjE)
      fix c assume h: "\<forall>key \<in> fst ` set data. map_of ?cm key \<noteq> Some c"
      assume "c \<noteq> response_mail_column m \<or> response_email = None"
      with r have "c \<noteq> response_mail_column m" by simp
      from a[OF this] f[OF h] show "cells ?d' row_idx c = cells d row_idx c" by simp
    qed
    have 3: "\<forall>i c. i \<noteq> row_idx \<and> c \<in> set (columns d) \<longrightarrow> cells ?d' i c = cells d i c"
    proof (intro allI impI, elim conjE)
      fix i c assume h: "i \<noteq> row_idx" "c \<in> set (columns d)"
      from h(2) columns_write_fields[of d ?cm row_idx data] have "c \<in> set (columns ?d1)"
        by (rule subsetD[rotated])
      from cells_at_set_other_row[OF h(1) this] o[OF h] show "cells ?d' i c = cells d i c"
        by simp
    qed
    show ?thesis
      by (rule exI[of _ m'], rule exI[of _ ?d'], intro conjI) (rule m' d' 1 2 3)+
  qed
qed

theorem update_row_data_writes_configured_fields_witness:
  "df example_manager = Some example_frame \<and> 1 \<in> set (index example_frame) \<and>
   map_of (errors (manager_stats example_manager)) ''excel'' = Some 0 \<and>
   (\<exists>m' d'. update_row_data example_manager 1
               [(''price_usd'', Str '' 100 ''), (''notes'', Str ''urgent'')] None = Inr m' \<and>
            df m' = Some d' \<and>
            cells d' 1 ''price'' = Str ''100'' \<and>
            cells d' 1 ''mail'' = Str ''B@X.com'' \<and>
            cells d' 1 ''notes'' = cells example_frame 1 ''notes'' \<and>
            cells d' 0 ''price'' = Str [])"
proof -
  let ?data = "[(''price_usd'', Str '' 100 ''), (''notes'', Str ''urgent'')]"
  have 1: "df example_manager = Some example_frame"
    by (simp add: example_manager_def)
  have 2: "1 \<in> set (index example_frame)"
    by (simp add: example_frame_def)
  have 3: "map_of (errors (manager_stats example_manager)) ''excel'' = Some 0"
    by (simp add: example_manager_def new_stats_def)
  from update_row_data_writes_configured_fields[OF 1 2 3, of ?data None]
  obtain m' d' where r: "update_row_data example_manager 1 ?data None = Inr m'" "df m' = Some d'"
    and w: "\<And>pre key v post col.
        ?data = pre @ (key, v) # post \<and> map_of (column_mapping example_manager) key = Some col \<and>
        (\<forall>k' \<in> fst ` set post. map_of (column_mapping example_manager) k' \<noteq> Some col) \<and>
        (col \<noteq> response_mail_column example_manager \<or> (None :: string option) = None)
        \<Longrightarrow> cells d' 1 col = strip_value v"
    and f: "\<And>c. (\<forall>key \<in> fst ` set ?data. map_of (column_mapping example_manager) key \<noteq> Some c) \<and>
          (c \<noteq> response_mail_column example_manager \<or> (None :: string option) = None)
        \<Longrightarrow> cells d' 1 c = cells example_frame 1 c"
    and o: "\<And>i c. i \<noteq> 1 \<and> c \<in> set (columns example_frame) \<Longrightarrow> cells d' i c = cells example_frame i c"
    by (elim exE conjE) blast
  have sv: "strip_value (Str '' 100 '') = Str ''100''"
    by code_simp
  have "cells d' 1 ''price'' = strip_value (Str '' 100 '')"
    by (rule w[of "[]" "''price_usd''" _ "[(''notes'', Str ''urgent'')]"])
       (simp add: example_manager_def)
  then have a: "cells d' 1 ''price'' = Str ''100''"
    by (simp only: sv)
  have "cells d' 1 ''mail'' = cells example_frame 1 ''mail''"
    by (rule f) (simp add: example_manager_def)
  then have b: "cells d' 1 ''mail'' = Str ''B@X.com''"
    by (simp add: example_frame_def)
  have c: "cells d' 1 ''notes'' = cells example_frame 1 ''notes''"
    by (rule f) (simp add: example_manager_def)
  have "cells d' 0 ''price'' = cells example_frame 0 ''price''"
    by (rule o) (simp add: example_frame_def)
  then have e: "cells d' 0 ''price'' = Str []"
    by (simp add: example_frame_def)
  from 1 2 3 r a b c e show ?thesis
    by blast
qed

text \<open>
  C8: for a supplied (non-empty) response address and a row whose current primary
  address is text, the update writes the response address as given, neither normalized
  nor changed in case, into the response-address cell of the row if its normalized form
  differs from the normalized primary address, and otherwise leaves the table as the
  writes of the fields left it: a response address equal after normalization to the
  primary address causes no write to the response column.
\<close>

theorem update_row_data_response_address:
  assumes "df m = Some d" and "r \<noteq> []"
    and "d1 = write_fields (column_mapping m) row_idx data d"
    and "at_get d1 row_idx (mail_column m) = Inr (Str p)"
  shows "\<exists>m' d'. update_row_data m row_idx data (Some r) = Inr m' \<and> df m' = Some d' \<and>
     (normalize_email r \<noteq> normalize_email p \<longrightarrow>
        d' = at_set d1 row_idx (response_mail_column m) (Str r) \<and>
        cells d' row_idx (response_mail_column m) = Str r) \<and>
     (normalize_email r = normalize_email p \<longrightarrow> d' = d1)"
proof (cases "normalize_email r = normalize_email p")
  case True
  with assms have "write_response m row_idx (Some r) d1 = Inr d1"
    by (simp add: write_response_def normalize_email_cell_def)
  with assms(1,3) True show ?thesis
    by (simp add: update_row_data_def)
next
  case False
  with assms have "write_response m row_idx (Some r) d1 =
      Inr (at_set d1 row_idx (response_mail_column m) (Str r))"
    by (simp add: write_response_def normalize_email_cell_def)
  with assms(1,3) False show ?thesis
    by (simp add: update_row_data_def cells_at_set_same)
qed

theorem update_row_data_response_address_witness:
  "df example_manager = Some example_frame \<and> ''C@y.com'' \<noteq> [] \<and>
   at_get (write_fields (column_mapping example_manager) 1 [(''price_usd'', Str ''100'')] example_frame)
     1 (mail_column example_manager) = Inr (Str ''B@X.com'') \<and>
   normalize_email ''C@y.com'' \<noteq> normalize_email ''B@X.com'' \<and>
   normalize_email '' b@x.COM'' = normalize_email ''B@X.com'' \<and>
   (\<exists>m' d'. update_row_data example_manager 1 [(''price_usd'', Str ''100'')] (Some ''C@y.com'') = Inr m' \<and>
      df m' = Some d' \<and> cells d' 1 (response_mail_column example_manager) = Str ''C@y.com'') \<and>
   (\<exists>m'. update_row_data example_manager 1 [(''price_usd'', Str ''100'')] (Some '' b@x.COM'') = Inr m' \<and>
      df m' = Some (write_fields (column_mapping example_manager) 1 [(''price_usd'', Str ''100'')] example_frame))"
proof -
  let ?data = "[(''price_usd'', Str ''100'')]"
  let ?d1 = "write_fields (column_mapping example_manager) 1 ?data example_frame"
  have 1: "df example_manager = Some example_frame"
    by (simp add: example_manager_def)
  have 2: "''C@y.com'' \<noteq> []" and ne2: "'' b@x.COM'' \<noteq> []"
    by simp_all
  have 3: "at_get ?d1 1 (mail_column example_manager) = Inr (Str ''B@X.com'')"
    by code_simp
  have 4: "normalize_email ''C@y.com'' \<noteq> normalize_email ''B@X.com''"
    by code_simp
  have 5: "normalize_email '' b@x.COM'' = normalize_email ''B@X.com''"
    by code_simp
  from update_row_data_response_address[OF 1 2 refl 3]
  obtain m' d' where a: "update_row_data example_manager 1 ?data (Some ''C@y.com'') = Inr m'"
      "df m' = Some d'"
    and b: "normalize_email ''C@y.com'' \<noteq> normalize_email ''B@X.com'' \<longrightarrow>
        d' = at_set ?d1 1 (response_mail_column example_manager) (Str ''C@y.com'') \<and>
        cells d' 1 (response_mail_column example_manager) = Str ''C@y.com''"
    by (elim exE conjE)
  from b 4 have "cells d' 1 (response_mail_column example_manager) = Str ''C@y.com''"
    by (elim impE conjE)
  with a have 6: "\<exists>m' d'. update_row_data example_manager 1 ?data (Some ''C@y.com'') = Inr m' \<and>
      df m' = Some d' \<and> cells d' 1 (response_mail_column example_manager) = Str ''C@y.com''"
    by (intro exI conjI)
  from update_row_data_response_address[OF 1 ne2 refl 3]
  obtain m'' d'' where c: "update_row_data example_manager 1 ?data (Some '' b@x.COM'') = Inr m''"
      "df m'' = Some d''"
    and e: "normalize_email '' b@x.COM'' = normalize_email ''B@X.com'' \<longrightarrow> d'' = ?d1"
    by (elim exE conjE)
  from e 5 have "d'' = ?d1"
    by (elim impE)
  with c have 7: "\<exists>m'. update_row_data example_manager 1 ?data (Some '' b@x.COM'') = Inr m' \<and>
      df m' = Some ?d1"
    by (intro exI[of _ m''] conjI) simp_all
  from 1 2 3 4 5 6 7 show ?thesis
    by (intro conjI)
qed

section \<open>Reconciling a thread with the rows\<close>

lemma normalize_email_idem: "normalize_email (normalize_email a) = normalize_email a"
  by (simp add: normalize_email_def strip_lower lower_idem strip_idem)

lemma normalize_email_cell_normal:
  "normalize_email_cell v = Inr a \<Longrightarrow> normalize_email a = a"
  by (auto simp: normalize_email_cell_def normalize_email_idem split: pyval.splits)

lemma rows_loop_step:
  assumes "rows_loop m d q R (idx # idxs) acc = Inr rows"
  shows "\<exists>acc'. rows_loop m d q R idxs acc' = Inr rows \<and>
           (acc' = acc \<or> (\<exists>a. acc' = acc @ [(idx, a)] \<and> normalize_email a = a))"
  using assms
  by (auto split: sum.splits if_splits dest!: normalize_email_cell_normal)

lemma rows_loop_normal:
  "rows_loop m d q R idxs acc = Inr rows \<Longrightarrow>
   \<forall>x \<in> set acc. normalize_email (snd x) = snd x \<Longrightarrow>
   \<forall>x \<in> set rows. normalize_email (snd x) = snd x"
proof (induction idxs arbitrary: acc)
  case Nil
  then show ?case by simp
next
  case (Cons idx idxs)
  from rows_loop_step[OF Cons.prems(1)] obtain acc' where
    l: "rows_loop m d q R idxs acc' = Inr rows"
    and a: "acc' = acc \<or> (\<exists>a. acc' = acc @ [(idx, a)] \<and> normalize_email a = a)"
    by (elim exE conjE)
  from a Cons.prems(2) have "\<forall>x \<in> set acc'. normalize_email (snd x) = snd x"
    by auto
  from Cons.IH[OF l this] show ?case .
qed

lemma find_related_rows_normal:
  assumes "find_related_rows m original related = Inr rows"
  shows "\<forall>x \<in> set rows. normalize_email (snd x) = snd x"
proof -
  from assms obtain d where "rows_loop m d (normalize_email original)
      (normalize_email ` related) (index d) [] = Inr rows"
    by (auto simp: find_related_rows_def split: option.splits)
  from rows_loop_normal[OF this] show ?thesis by simp
qed

lemma response_email_for_spec:
  assumes "normalize_email found = found"
  shows "response_email_for found msgs = first_divergent_sender found msgs"
  using assms by (induction msgs) (simp_all add: first_divergent_sender_def)

lemma update_related_rows_calls:
  assumes "\<forall>x \<in> set rows. normalize_email (snd x) = snd x"
  shows "update_related_rows m rows msgs analysis =
           apply_updates m (map (\<lambda>(row_idx, matched).
             (row_idx, analysis, first_divergent_sender matched msgs)) rows)"
  using assms
proof (induction rows arbitrary: m)
  case Nil
  then show ?case by simp
next
  case (Cons x rows)
  obtain row_idx found where x: "x = (row_idx, found)" by (cases x)
  with Cons.prems have n: "normalize_email found = found"
    and rest: "\<forall>x \<in> set rows. normalize_email (snd x) = snd x"
    by simp_all
  show ?case
    by (simp add: x response_email_for_spec[OF n] Cons.IH[OF rest] split: sum.splits)
qed

text \<open>
  C9: for the candidates that the row matcher returns for a thread, in their order,
  \<^verbatim>\<open>process_email_thread\<close> calls the update applier once for each, with the one analysis
  result of the thread and, as response address, the sender of the first message of the
  thread whose normalized sender address differs from the matched address of the
  candidate (none if there is no such message); if the row matcher raises, so does the
  function.
\<close>

theorem process_email_thread_updates_every_match:
  "(\<forall>rows. find_related_rows m original (set (get_or_empty (participants td))) = Inr rows \<longrightarrow>
      process_email_thread m original td analysis =
        apply_updates m (map (\<lambda>(row_idx, matched).
            (row_idx, analysis,
             first_divergent_sender matched (get_or_empty (data_messages td)))) rows)) \<and>
   (\<forall>e. find_related_rows m original (set (get_or_empty (participants td))) = Inl e \<longrightarrow>
      process_email_thread m original td analysis = Inl e)"
proof (intro conjI allI impI)
  fix rows
  assume h: "find_related_rows m original (set (get_or_empty (participants td))) = Inr rows"
  from find_related_rows_normal[OF h]
  have "update_related_rows m rows (get_or_empty (data_messages td)) analysis =
      apply_updates m (map (\<lambda>(row_idx, matched).
            (row_idx, analysis,
             first_divergent_sender matched (get_or_empty (data_messages td)))) rows)"
    by (rule update_related_rows_calls)
  then show "process_email_thread m original td analysis =
        apply_updates m (map (\<lambda>(row_idx, matched).
            (row_idx, analysis,
             first_divergent_sender matched (get_or_empty (data_messages td)))) rows)"
    by (cases rows) (simp_all add: process_email_thread_def h)
next
  fix e
  assume "find_related_rows m original (set (get_or_empty (participants td))) = Inl e"
  then show "process_email_thread m original td analysis = Inl e"
    by (simp add: process_email_thread_def)
qed

theorem process_email_thread_updates_every_match_witness:
  "find_related_rows example_manager ''b@x.com'' (set (get_or_empty (participants example_thread)))
     = Inr [(0, ''a@x.com''), (1, ''b@x.com'')] \<and>
   process_email_thread example_manager ''b@x.com'' example_thread [(''price_usd'', Str ''100'')] =
     apply_updates example_manager
       [(0, [(''price_usd'', Str ''100'')], Some ''B@X.com''),
        (1, [(''price_usd'', Str ''100'')], Some ''a@x.com'')]"
proof -
  let ?msgs = "get_or_empty (data_messages example_thread)"
  have h: "find_related_rows example_manager ''b@x.com''
             (set (get_or_empty (participants example_thread)))
           = Inr [(0, ''a@x.com''), (1, ''b@x.com'')]"
    by code_simp
  have f0: "first_divergent_sender ''a@x.com'' ?msgs = Some ''B@X.com''"
    by code_simp
  have f1: "first_divergent_sender ''b@x.com'' ?msgs = Some ''a@x.com''"
    by code_simp
  from process_email_thread_updates_every_match
         [of example_manager "''b@x.com''" example_thread "[(''price_usd'', Str ''100'')]"]
  have "process_email_thread example_manager ''b@x.com'' example_thread [(''price_usd'', Str ''100'')] =
        apply_updates example_manager (map (\<lambda>(row_idx, matched).
            (row_idx, [(''price_usd'', Str ''100'')],
             first_divergent_sender matched ?msgs)) [(0, ''a@x.com''), (1, ''b@x.com'')])"
    using h by (elim conjE allE[of _ "[(0, ''a@x.com''), (1, ''b@x.com'')]"] impE)
  then have "process_email_thread example_manager ''b@x.com'' example_thread [(''price_usd'', Str ''100'')] =
     apply_updates example_manager
       [(0, [(''price_usd'', Str ''100'')], Some ''B@X.com''),
        (1, [(''price_usd'', Str ''100'')], Some ''a@x.com'')]"
    by (simp only: list.map prod.case f0 f1)
  with h show ?thesis
    by (intro conjI)
qed

end
